theory Spec2Isabelle
  imports Complex_Main
begin

section \<open>DatastoreWriter: data model\<close>

text \<open>
  The embedding follows \<^verbatim>\<open>src/DatastoreWriter.ts\<close> and \<^verbatim>\<open>src/BulkLoader.ts\<close>.
  JavaScript numbers that the code only counts with are integers here, \<^verbatim>\<open>bigint\<close>
  nanoseconds are integers, and a value that may be \<^verbatim>\<open>undefined\<close> or \<^verbatim>\<open>null\<close>
  is an \<open>option\<close>. An entity is opaque (type \<open>'e\<close>); the rejection value of the
  Datastore client is opaque too (type \<open>'c\<close>).

  Everything that is thrown is a value of \<open>error\<close>. \<open>SinkCause c\<close> is the rejection
  value \<open>c\<close> of \<^verbatim>\<open>datastore.insert\<close> / \<^verbatim>\<open>datastore.upsert\<close> itself: \<^verbatim>\<open>flush\<close> has no
  \<^verbatim>\<open>catch\<close>, so the awaited rejection leaves the function as it came.
\<close>

datatype 'c error =
    DatastoreMissing
  | BufferSizeMissing
  | MaxConcurrentMissing
  | BufferSizeNotPositive int
  | MaxConcurrentNotPositive int
  | EntityMissing
  | ConcurrencyExceeded
  | AssertionError
  | TypeError
  | SinkCause 'c
  | FilePathMissing
  | ConverterMissing
  | CheckFailed string
  | ConversionError string
  | SourceReadError string

text \<open>The payload of the \<^verbatim>\<open>'stats'\<close> event, with the four keys \<^verbatim>\<open>#endTimer\<close> writes.\<close>

record stats =
  st_start :: int
  st_end :: int
  st_request_count :: int
  st_elapsed :: int

datatype 'c event = Busy | Idle | Stats stats | Error "'c error"

datatype sink_op = Insert | Upsert

text \<open>What the promise returned by one call of \<^verbatim>\<open>flush\<close> is after the synchronous part
  of the call: fulfilled, rejected, or suspended at the \<^verbatim>\<open>await\<close> of the request with
  the given number.\<close>

datatype 'c status = Fulfilled | Rejected "'c error" | Awaiting int

record writer_options =
  buffer_size :: "int option"
  max_concurrent_requests :: "int option"
  opt_upsert :: bool

text \<open>
  The fields of the class, followed by what the class does to its environment:
  \<^item> \<open>emitted\<close>: the events passed to \<^verbatim>\<open>this.emit\<close>, oldest first;
  \<^item> \<open>sink_calls\<close>: the calls made on the Datastore client, oldest first, each with
    the request number and the batch;
  \<^item> \<open>in_flight\<close>: the request numbers whose sink promise is not settled yet;
  \<^item> \<open>auto_flushes\<close>: the requests started by \<^verbatim>\<open>add\<close>, whose promise carries the
    \<^verbatim>\<open>catch\<close> handler that emits \<^verbatim>\<open>'error'\<close>;
  \<^item> \<open>idle_listeners\<close>: the \<^verbatim>\<open>once('idle', ...)\<close> listeners registered by \<^verbatim>\<open>ready\<close>,
    each named by the promise it resolves; \<open>ready_resolved\<close>: the promises of
    \<^verbatim>\<open>ready\<close> resolved so far; \<open>next_promise\<close>: the next fresh promise name.
  \<^verbatim>\<open>#t0\<close>, \<^verbatim>\<open>#t1\<close> are unset until the first timer runs and are 0 here; \<^verbatim>\<open>#isTicking\<close>
  is unset at first, which \<^verbatim>\<open>!this.#isTicking\<close> reads as false.
\<close>

record ('e, 'c) writer =
  entities :: "'e list"
  isBusy :: bool
  bufferSize :: int
  bufferCount :: int
  t0 :: int
  t1 :: int
  isTicking :: bool
  maxConcurrentRequests :: int
  concurrentRequests :: int
  elapsed :: int
  requestCount :: int
  upsert :: bool
  emitted :: "'c event list"
  sink_calls :: "(sink_op \<times> int \<times> 'e list) list"
  in_flight :: "int list"
  auto_flushes :: "int list"
  idle_listeners :: "nat list"
  ready_resolved :: "nat list"
  next_promise :: nat

section \<open>DatastoreWriter: operations\<close>

text \<open>\<^verbatim>\<open>if (!options.buffer_size) { options.buffer_size = 500; }\<close>: a number that is
  missing or 0 is falsy and is replaced by the default.\<close>

definition or_default :: "int option \<Rightarrow> int \<Rightarrow> int" where
  "or_default x d = (case x of None \<Rightarrow> d | Some n \<Rightarrow> if n = 0 then d else n)"

definition default_writer_options :: writer_options where
  "default_writer_options =
     \<lparr>buffer_size = Some 500, max_concurrent_requests = Some 10, opt_upsert = False\<rparr>"

text \<open>The constructor. \<open>datastore\<close> is \<open>None\<close> for a missing client; \<open>opts\<close> is \<open>None\<close>
  for options that \<^verbatim>\<open>_.isEmpty\<close> accepts (undefined, null, \<^verbatim>\<open>{}\<close>).\<close>

text \<open>The fields as the constructor sets them, for a buffer size, a maximum of
  concurrent requests and an upsert flag.\<close>

definition init_writer :: "int \<Rightarrow> int \<Rightarrow> bool \<Rightarrow> ('e, 'c) writer" where
  "init_writer bs mc up =
     \<lparr>entities = [], isBusy = False, bufferSize = bs, bufferCount = 0,
      t0 = 0, t1 = 0, isTicking = False, maxConcurrentRequests = mc,
      concurrentRequests = 0, elapsed = 0, requestCount = 0,
      upsert = up, emitted = [], sink_calls = [],
      in_flight = [], auto_flushes = [], idle_listeners = [],
      ready_resolved = [], next_promise = 0\<rparr>"

definition new_writer ::
  "'d option \<Rightarrow> writer_options option \<Rightarrow> 'c error + ('e, 'c) writer" where
  "new_writer datastore opts =
    (let options = (case opts of None \<Rightarrow> default_writer_options | Some v \<Rightarrow> v);
         bs = or_default (buffer_size options) 500;
         mc = or_default (max_concurrent_requests options) 10
     in if datastore = None then Inl DatastoreMissing
        else if bs = 0 then Inl BufferSizeMissing
        else if mc = 0 then Inl MaxConcurrentMissing
        else if bs \<le> 0 then Inl (BufferSizeNotPositive bs)
        else if mc \<le> 0 then Inl (MaxConcurrentNotPositive mc)
        else Inr (init_writer bs mc (opt_upsert options)))"

definition emit :: "'c event \<Rightarrow> ('e, 'c) writer \<Rightarrow> ('e, 'c) writer" where
  "emit ev w = w\<lparr>emitted := emitted w @ [ev]\<rparr>"

text \<open>\<^verbatim>\<open>emit('idle')\<close> also runs every \<^verbatim>\<open>once('idle')\<close> listener and removes it.\<close>

definition emit_idle :: "('e, 'c) writer \<Rightarrow> ('e, 'c) writer" where
  "emit_idle w =
     (emit Idle w)\<lparr>ready_resolved := ready_resolved w @ idle_listeners w,
                   idle_listeners := []\<rparr>"

definition changeStateToBusy :: "('e, 'c) writer \<Rightarrow> ('e, 'c) writer" where
  "changeStateToBusy w =
     (if \<not> isBusy w \<and> concurrentRequests w = maxConcurrentRequests w
      then emit Busy (w\<lparr>isBusy := True\<rparr>) else w)"

definition changeStateToIdle :: "('e, 'c) writer \<Rightarrow> ('e, 'c) writer" where
  "changeStateToIdle w =
     (if isBusy w \<and> concurrentRequests w < maxConcurrentRequests w
      then emit_idle (w\<lparr>isBusy := False\<rparr>) else w)"

text \<open>\<^verbatim>\<open>ready()\<close>: a new promise, resolved at once when the writer is not busy, and
  resolved by a one-shot \<^verbatim>\<open>'idle'\<close> listener otherwise.\<close>

definition ready :: "('e, 'c) writer \<Rightarrow> nat \<times> ('e, 'c) writer" where
  "ready w =
     (let p = next_promise w; w1 = w\<lparr>next_promise := p + 1\<rparr>
      in if isBusy w1 then (p, w1\<lparr>idle_listeners := idle_listeners w1 @ [p]\<rparr>)
         else (p, w1\<lparr>ready_resolved := ready_resolved w1 @ [p]\<rparr>))"

text \<open>The timer. \<open>now\<close> is the value \<^verbatim>\<open>hrtime.bigint()\<close> returns at the call.\<close>

definition startTimer :: "int \<Rightarrow> ('e, 'c) writer \<Rightarrow> 'c error + ('e, 'c) writer" where
  "startTimer now w =
     (if isTicking w then Inl AssertionError
      else Inr (w\<lparr>isTicking := True, t0 := now\<rparr>))"

definition endTimer :: "int \<Rightarrow> ('e, 'c) writer \<Rightarrow> 'c error + ('e, 'c) writer" where
  "endTimer now w =
     (if \<not> isTicking w then Inl AssertionError
      else let w1 = w\<lparr>isTicking := False, t1 := now\<rparr>;
               nano = t1 w1 - t0 w1;
               w2 = w1\<lparr>elapsed := elapsed w1 + nano\<rparr>
           in Inr (emit (Stats \<lparr>st_start = t0 w2, st_end = t1 w2,
                                 st_request_count = requestCount w2,
                                 st_elapsed = nano\<rparr>) w2))"

text \<open>
  \<^verbatim>\<open>flush\<close> up to its \<^verbatim>\<open>await\<close>: the part that runs inside the caller's turn. The sink
  call is made at the end of it and the function suspends.
\<close>

definition flush :: "int \<Rightarrow> ('e, 'c) writer \<Rightarrow> ('e, 'c) writer \<times> 'c status" where
  "flush now w =
     (let foo = entities w; w1 = w\<lparr>entities := []\<rparr>
      in if length foo > 0 then
           let w2 = w1\<lparr>concurrentRequests := concurrentRequests w1 + 1\<rparr>
           in if concurrentRequests w2 > maxConcurrentRequests w2
              then (w2, Rejected ConcurrencyExceeded)
              else
                let w3 = w2\<lparr>requestCount := requestCount w2 + 1\<rparr>;
                    requestNumber = requestCount w3;
                    w4 = changeStateToBusy w3
                in case startTimer now w4 of
                     Inl err \<Rightarrow> (w4, Rejected err)
                   | Inr w5 \<Rightarrow>
                       (w5\<lparr>sink_calls := sink_calls w5 @
                              [(if upsert w5 then Upsert else Insert, requestNumber, foo)],
                            in_flight := in_flight w5 @ [requestNumber]\<rparr>,
                        Awaiting requestNumber)
         else (w1, Fulfilled))"

text \<open>
  The rest of \<^verbatim>\<open>flush\<close>, run when the sink promise is fulfilled. The result of the
  client has the shape of a commit response, so the debug line that reads
  \<^verbatim>\<open>result[0].mutationResults.length\<close> does not throw.
\<close>

definition flush_resume :: "int \<Rightarrow> ('e, 'c) writer \<Rightarrow> ('e, 'c) writer \<times> 'c status" where
  "flush_resume now w =
     (let w1 = w\<lparr>concurrentRequests := concurrentRequests w - 1\<rparr>
      in case endTimer now w1 of
           Inl err \<Rightarrow> (w1, Rejected err)
         | Inr w2 \<Rightarrow> (changeStateToIdle w2, Fulfilled))"

text \<open>When the sink promise is rejected with \<open>c\<close>, the \<^verbatim>\<open>await\<close> throws \<open>c\<close>: nothing of the
  rest of \<^verbatim>\<open>flush\<close> runs, and the promise of \<^verbatim>\<open>flush\<close> is rejected with \<open>c\<close>.\<close>

definition flush_abort :: "'c \<Rightarrow> ('e, 'c) writer \<Rightarrow> ('e, 'c) writer \<times> 'c status" where
  "flush_abort c w = (w, Rejected (SinkCause c))"

text \<open>The remainder operator \<^verbatim>\<open>%\<close> on integers: the sign of the dividend, and
  \<^verbatim>\<open>NaN\<close> (\<open>None\<close>) for a zero divisor.\<close>

definition js_rem :: "int \<Rightarrow> int \<Rightarrow> int option" where
  "js_rem a b = (if b = 0 then None else Some (sgn a * (\<bar>a\<bar> mod \<bar>b\<bar>)))"

text \<open>The \<^verbatim>\<open>catch\<close> handler that \<^verbatim>\<open>add\<close> attaches to the promise of its flush.\<close>

definition catch_emit :: "'c status \<Rightarrow> ('e, 'c) writer \<Rightarrow> ('e, 'c) writer" where
  "catch_emit r w = (case r of Rejected err \<Rightarrow> emit (Error err) w | _ \<Rightarrow> w)"

definition add :: "int \<Rightarrow> 'e option \<Rightarrow> ('e, 'c) writer \<Rightarrow> 'c error + ('e, 'c) writer" where
  "add now entity w =
     (case entity of
        None \<Rightarrow> Inl EntityMissing
      | Some x \<Rightarrow>
          let w1 = w\<lparr>entities := entities w @ [x]\<rparr>;
              w2 = w1\<lparr>bufferCount := bufferCount w1 + 1\<rparr>
          in if js_rem (bufferCount w2) (bufferSize w2) = Some 0
             then (case flush now w2 of
                     (w3, Awaiting rn) \<Rightarrow> Inr (w3\<lparr>auto_flushes := auto_flushes w3 @ [rn]\<rparr>)
                   | (w3, r) \<Rightarrow> Inr (catch_emit r w3))
             else Inr w2)"

section \<open>The writer and its environment as a transition system\<close>

text \<open>
  One action is one turn of the event loop that touches the writer: a call of a public
  method, or the settlement of the sink promise of a request in flight. A settlement for
  a request that is not in flight cannot happen and changes nothing. An \<^verbatim>\<open>add\<close> that
  throws leaves the writer as it was.
\<close>

datatype ('e, 'c) action =
    Add "'e option" int
  | Flush int
  | Ready
  | SinkResolve int int
  | SinkReject int 'c

definition sink_resolved :: "int \<Rightarrow> int \<Rightarrow> ('e, 'c) writer \<Rightarrow> ('e, 'c) writer \<times> 'c status" where
  "sink_resolved rn now w =
     (case flush_resume now (w\<lparr>in_flight := removeAll rn (in_flight w)\<rparr>) of
        (w1, r) \<Rightarrow> (if rn \<in> set (auto_flushes w1) then catch_emit r w1 else w1, r))"

definition sink_rejected :: "int \<Rightarrow> 'c \<Rightarrow> ('e, 'c) writer \<Rightarrow> ('e, 'c) writer \<times> 'c status" where
  "sink_rejected rn c w =
     (case flush_abort c (w\<lparr>in_flight := removeAll rn (in_flight w)\<rparr>) of
        (w1, r) \<Rightarrow> (if rn \<in> set (auto_flushes w1) then catch_emit r w1 else w1, r))"

fun step :: "('e, 'c) writer \<Rightarrow> ('e, 'c) action \<Rightarrow> ('e, 'c) writer" where
  "step w (Add entity now) = (case add now entity w of Inl err \<Rightarrow> w | Inr w1 \<Rightarrow> w1)"
| "step w (Flush now) = fst (flush now w)"
| "step w Ready = snd (ready w)"
| "step w (SinkResolve rn now) =
     (if rn \<in> set (in_flight w) then fst (sink_resolved rn now w) else w)"
| "step w (SinkReject rn c) =
     (if rn \<in> set (in_flight w) then fst (sink_rejected rn c w) else w)"

fun run :: "('e, 'c) writer \<Rightarrow> ('e, 'c) action list \<Rightarrow> ('e, 'c) writer" where
  "run w [] = w"
| "run w (a # as) = run (step w a) as"

text \<open>\<open>flushes w a\<close>: the action \<open>a\<close> makes \<^verbatim>\<open>flush\<close> run on a buffer that is not
  empty, either called directly or from \<^verbatim>\<open>add\<close> at the threshold. \<open>gated w as\<close>: in the
  run of \<open>as\<close> from \<open>w\<close>, no such flush starts while the writer is busy, which is what
  the comment on \<^verbatim>\<open>ready\<close> asks of the caller (\<^verbatim>\<open>Always await this method before
  calling add or flush\<close>).\<close>

fun flushes :: "('e, 'c) writer \<Rightarrow> ('e, 'c) action \<Rightarrow> bool" where
  "flushes w (Flush now) = (entities w \<noteq> [])"
| "flushes w (Add (Some x) now) = (js_rem (bufferCount w + 1) (bufferSize w) = Some 0)"
| "flushes w (Add None now) = False"
| "flushes w Ready = False"
| "flushes w (SinkResolve rn now) = False"
| "flushes w (SinkReject rn c) = False"

fun gated :: "('e, 'c) writer \<Rightarrow> ('e, 'c) action list \<Rightarrow> bool" where
  "gated w [] = True"
| "gated w (a # as) = ((if flushes w a then \<not> isBusy w else True) \<and> gated (step w a) as)"

text \<open>The entities that the calls of \<^verbatim>\<open>add\<close> in a list of actions append.\<close>

fun added :: "('e, 'c) action list \<Rightarrow> 'e list" where
  "added [] = []"
| "added (Add (Some x) now # as) = x # added as"
| "added (a # as) = added as"

text \<open>The batches of the sink calls made after the first \<open>n\<close>.\<close>

definition batches_from :: "nat \<Rightarrow> ('e, 'c) writer \<Rightarrow> 'e list list" where
  "batches_from n w = map (\<lambda>(op, rn, batch). batch) (drop n (sink_calls w))"

text \<open>The events emitted after the first \<open>n\<close>.\<close>

definition events_from :: "nat \<Rightarrow> ('e, 'c) writer \<Rightarrow> 'c event list" where
  "events_from n w = drop n (emitted w)"

text \<open>What every writer reached from a constructed one satisfies: the count of
  concurrent requests is not negative and covers the requests in flight, the busy flag
  says that the count has reached the maximum, the timer runs while a request is in
  flight, and at most one request is in flight (a second flush fails the assertion of
  \<^verbatim>\<open>#startTimer\<close> before it reaches the sink).\<close>

definition gate_inv :: "('e, 'c) writer \<Rightarrow> bool" where
  "gate_inv w =
     (0 < maxConcurrentRequests w \<and> 0 \<le> concurrentRequests w \<and>
      int (length (in_flight w)) \<le> concurrentRequests w \<and>
      (isBusy w = (maxConcurrentRequests w \<le> concurrentRequests w)) \<and>
      (in_flight w = [] \<or> isTicking w) \<and> length (in_flight w) \<le> 1)"

text \<open>The promises of \<^verbatim>\<open>ready\<close> are named apart: a pending one is not resolved, and
  every name in use is below the next fresh one.\<close>

definition promises_inv :: "('e, 'c) writer \<Rightarrow> bool" where
  "promises_inv w =
     (list_all (\<lambda>p. p < next_promise w) (idle_listeners w @ ready_resolved w) \<and>
      list_all (\<lambda>p. p \<notin> set (ready_resolved w)) (idle_listeners w))"

text \<open>\<open>from_buffer w xs w'\<close>: the buffer of \<open>w'\<close> and the batches submitted between \<open>w\<close>
  and \<open>w'\<close> hold only entities of the buffer of \<open>w\<close> and of \<open>xs\<close>.\<close>

definition from_buffer :: "('e, 'c) writer \<Rightarrow> 'e list \<Rightarrow> ('e, 'c) writer \<Rightarrow> bool" where
  "from_buffer w xs w' =
     (set (entities w') \<subseteq> set (entities w) \<union> set xs \<and>
      (\<exists>new. sink_calls w' = sink_calls w @ new \<and>
         (\<forall>c \<in> set new. set (snd (snd c)) \<subseteq> set (entities w) \<union> set xs)))"

text \<open>\<open>quiet w w'\<close>: between \<open>w\<close> and \<open>w'\<close> no \<^verbatim>\<open>idle\<close> event was emitted and the promises
  of \<^verbatim>\<open>ready\<close> are as they were. \<open>ready_step w w'\<close>: what one action does to the
  promises of \<^verbatim>\<open>ready\<close>: resolved ones stay resolved, and the waiting ones are all
  resolved if the action emitted \<^verbatim>\<open>idle\<close> and all still waiting if not.\<close>

definition quiet :: "('e, 'c) writer \<Rightarrow> ('e, 'c) writer \<Rightarrow> bool" where
  "quiet w w' =
     (idle_listeners w' = idle_listeners w \<and> ready_resolved w' = ready_resolved w \<and>
      next_promise w' = next_promise w \<and>
      (\<exists>evs. emitted w' = emitted w @ evs \<and> Idle \<notin> set evs))"

definition ready_step :: "('e, 'c) writer \<Rightarrow> ('e, 'c) writer \<Rightarrow> bool" where
  "ready_step w w' =
     (promises_inv w' \<and> set (ready_resolved w) \<subseteq> set (ready_resolved w') \<and>
      (\<exists>evs. emitted w' = emitted w @ evs \<and>
         (if Idle \<in> set evs then set (idle_listeners w) \<subseteq> set (ready_resolved w')
          else set (idle_listeners w) \<subseteq> set (idle_listeners w'))))"

section \<open>BulkLoader: data model\<close>

record loader_options =
  num_concurrent :: "int option"
  num_lines :: "int option"
  batch_size :: "int option"
  lo_upsert :: "bool option"

text \<open>A call of the \<^verbatim>\<open>resolve\<close> or \<^verbatim>\<open>reject\<close> function of the promise that \<^verbatim>\<open>load\<close>
  returns.\<close>

datatype 'c settle = Resolve | Reject "'c error"

text \<open>The result of a division of JavaScript numbers: a division by zero does not
  throw, it gives \<^verbatim>\<open>NaN\<close> or an infinity. Rounding of doubles is left out: a finite
  quotient is the exact rational.\<close>

datatype js_number = Finite rat | NaN | PosInfinity | NegInfinity

definition js_div :: "rat \<Rightarrow> rat \<Rightarrow> js_number" where
  "js_div a b =
     (if b = 0 then (if a = 0 then NaN else if 0 < a then PosInfinity else NegInfinity)
      else Finite (a / b))"

text \<open>
  The fields of the class, followed by its environment:
  \<^item> \<open>lr_paused\<close>, \<open>lr_closed\<close>, \<open>lr_ended\<close>: the line reader after \<^verbatim>\<open>pause()\<close>, after
    \<^verbatim>\<open>close()\<close> (which stops the \<^verbatim>\<open>'line'\<close> events and makes it emit \<^verbatim>\<open>'end'\<close>), and
    after it has emitted \<^verbatim>\<open>'end'\<close>;
  \<^item> \<open>converted\<close>: the lines handed to the converter, oldest first;
  \<^item> \<open>waiting\<close>: the continuations of \<^verbatim>\<open>#waitForWriter\<close> that wait for a promise of
    \<^verbatim>\<open>ready\<close>, each with the entity it will add;
  \<^item> \<open>final_flush\<close>: the request that the flush of \<^verbatim>\<open>#handleEndEvent\<close> awaits;
  \<^item> \<open>settle_calls\<close>: the calls of \<^verbatim>\<open>resolve\<close> and \<^verbatim>\<open>reject\<close>, oldest first (the
    promise takes the first one);
  \<^item> \<open>logged\<close>: the values of \<^verbatim>\<open>sec\<close> that \<^verbatim>\<open>#complete\<close> logs.
\<close>

record ('e, 'c) loader =
  ld_writer :: "('e, 'c) writer"
  ld_batch :: int
  ld_count :: int
  ld_numConcurrent :: int
  ld_nLines :: "int option"
  ld_isPaused :: bool
  ld_requestCount :: int
  lr_paused :: bool
  lr_closed :: bool
  lr_ended :: bool
  converted :: "string list"
  waiting :: "(nat \<times> 'e option) list"
  final_flush :: "int option"
  settle_calls :: "'c settle list"
  logged :: "js_number list"

section \<open>BulkLoader: operations\<close>

definition default_options :: loader_options where
  "default_options =
     \<lparr>num_concurrent = Some 10, num_lines = None, batch_size = Some 500,
      lo_upsert = Some False\<rparr>"

text \<open>The fields that the constructor and \<^verbatim>\<open>load\<close> assign, for the writer that
  \<^verbatim>\<open>new Writer(...)\<close> is written to return, with the reader not opened yet. \<^verbatim>\<open>#count\<close> is
  unset until \<^verbatim>\<open>load\<close> and is 0 here.\<close>

definition init_loader ::
  "('e, 'c) writer \<Rightarrow> int \<Rightarrow> int \<Rightarrow> int option \<Rightarrow> ('e, 'c) loader" where
  "init_loader w bs nc nl =
     \<lparr>ld_writer = w, ld_batch = bs, ld_count = 0, ld_numConcurrent = nc,
      ld_nLines = nl, ld_isPaused = False,
      ld_requestCount = 0, lr_paused = False, lr_closed = False,
      lr_ended = False, converted = [], waiting = [],
      final_flush = None, settle_calls = [], logged = []\<rparr>"

text \<open>
  The constructor. A missing argument is \<open>None\<close>; the empty path is falsy as well.
  After the checks it evaluates \<^verbatim>\<open>new Writer(datastore, {...})\<close>. \<^verbatim>\<open>Writer\<close> is bound by
  \<^verbatim>\<open>import { DatastoreWriter as Writer } from './DatastoreWriter'\<close>, a named import, and
  \<^verbatim>\<open>DatastoreWriter.ts\<close> declares the class without \<^verbatim>\<open>export\<close> and exports it only as
  the default. The module has no member of that name, so \<^verbatim>\<open>Writer\<close> is undefined and
  \<^verbatim>\<open>new Writer(...)\<close> throws a \<^verbatim>\<open>TypeError\<close>: no argument list gets past that line, and
  the listeners on the writer are never registered.
\<close>

definition new_loader ::
  "string option \<Rightarrow> 'd option \<Rightarrow> 'k option \<Rightarrow> loader_options option \<Rightarrow>
   'c error + ('e, 'c) loader" where
  "new_loader filePath datastore converter opts =
    (if filePath = None \<or> filePath = Some [] then Inl FilePathMissing
     else if converter = None then Inl ConverterMissing
     else if datastore = None then Inl DatastoreMissing
     else
       let options = (case opts of None \<Rightarrow> default_options | Some v \<Rightarrow> v);
           bs = or_default (batch_size options) 500;
           nc = or_default (num_concurrent options) 10
       in if \<not> bs > 0 then Inl (CheckFailed ''batch size must be greater than 0'')
          else if \<not> nc > 0 then Inl (CheckFailed ''nConcurrent must be greater than 0'')
          else Inl TypeError)"

text \<open>\<^verbatim>\<open>load\<close> stores \<^verbatim>\<open>resolve\<close> and \<^verbatim>\<open>reject\<close>, opens the reader and resets the count.\<close>

definition load :: "('e, 'c) loader \<Rightarrow> ('e, 'c) loader" where
  "load l = l\<lparr>ld_count := 0, lr_paused := False, lr_closed := False, lr_ended := False\<rparr>"

definition handleErrorEvent :: "'c error \<Rightarrow> ('e, 'c) loader \<Rightarrow> ('e, 'c) loader" where
  "handleErrorEvent err l = l\<lparr>settle_calls := settle_calls l @ [Reject err]\<rparr>"

text \<open>The listeners the constructor puts on the writer: \<^verbatim>\<open>'error'\<close> goes to
  \<^verbatim>\<open>#handleErrorEvent\<close>, \<^verbatim>\<open>'stats'\<close> counts a request.\<close>

fun on_event :: "('e, 'c) loader \<Rightarrow> 'c event \<Rightarrow> ('e, 'c) loader" where
  "on_event l (Error err) = handleErrorEvent err l"
| "on_event l (Stats s) = l\<lparr>ld_requestCount := ld_requestCount l + 1\<rparr>"
| "on_event l Busy = l"
| "on_event l Idle = l"

text \<open>\<open>set_writer w l\<close> stores the writer after one of its operations and runs the
  listeners on the events the operation emitted.\<close>

definition set_writer :: "('e, 'c) writer \<Rightarrow> ('e, 'c) loader \<Rightarrow> ('e, 'c) loader" where
  "set_writer w l =
     foldl on_event (l\<lparr>ld_writer := w\<rparr>)
       (drop (length (emitted (ld_writer l))) (emitted w))"

definition complete :: "('e, 'c) loader \<Rightarrow> ('e, 'c) loader" where
  "complete l =
     (let sec = js_div (of_int (elapsed (ld_writer l)) * (1 / 10 ^ 9))
                       (of_int (requestCount (ld_writer l)))
      in l\<lparr>logged := logged l @ [sec], settle_calls := settle_calls l @ [Resolve]\<rparr>)"

definition waitForWriter :: "'e option \<Rightarrow> ('e, 'c) loader \<Rightarrow> ('e, 'c) loader" where
  "waitForWriter entity l =
     (case ready (ld_writer l) of
        (p, w) \<Rightarrow> l\<lparr>ld_writer := w, waiting := waiting l @ [(p, entity)]\<rparr>)"

text \<open>The callback of \<^verbatim>\<open>ready().then\<close> in \<^verbatim>\<open>#waitForWriter\<close>.\<close>

definition resume_line :: "int \<Rightarrow> 'e option \<Rightarrow> ('e, 'c) loader \<Rightarrow> ('e, 'c) loader" where
  "resume_line now entity l =
     (if \<not> ld_isPaused l then handleErrorEvent AssertionError l
      else case add now entity (ld_writer l) of
             Inl err \<Rightarrow> handleErrorEvent err l
           | Inr w \<Rightarrow> (set_writer w l)\<lparr>lr_paused := False, ld_isPaused := False\<rparr>)"

definition limit_reached :: "('e, 'c) loader \<Rightarrow> bool" where
  "limit_reached l = (case ld_nLines l of None \<Rightarrow> False | Some n \<Rightarrow> n > 0 \<and> ld_count l = n)"

text \<open>\<open>conv\<close> is the converter: it throws (\<open>Inl\<close>) or returns an entity, which may be
  null.\<close>

definition handleLineEvent ::
  "(string \<Rightarrow> 'c error + 'e option) \<Rightarrow> int \<Rightarrow> string \<Rightarrow> ('e, 'c) loader \<Rightarrow> ('e, 'c) loader" where
  "handleLineEvent conv now line l =
     (if limit_reached l then l\<lparr>lr_closed := True\<rparr>
      else
        let l1 = l\<lparr>ld_count := ld_count l + 1, converted := converted l @ [line]\<rparr>
        in case conv line of
             Inl err \<Rightarrow> handleErrorEvent err l1
           | Inr entity \<Rightarrow>
               if isBusy (ld_writer l1)
               then waitForWriter entity (l1\<lparr>lr_paused := True, ld_isPaused := True\<rparr>)
               else (case add now entity (ld_writer l1) of
                       Inl err \<Rightarrow> handleErrorEvent err l1
                     | Inr w \<Rightarrow> set_writer w l1))"

text \<open>The promise chain \<^verbatim>\<open>flush().then(complete).catch(handleErrorEvent)\<close>, applied to
  the promise of \<^verbatim>\<open>flush\<close> once it is settled.\<close>

definition after_final_flush :: "'c status \<Rightarrow> ('e, 'c) loader \<Rightarrow> ('e, 'c) loader" where
  "after_final_flush r l =
     (case r of
        Fulfilled \<Rightarrow> complete l
      | Rejected err \<Rightarrow> handleErrorEvent err l
      | Awaiting rn \<Rightarrow> l\<lparr>final_flush := Some rn\<rparr>)"

definition handleEndEvent :: "int \<Rightarrow> ('e, 'c) loader \<Rightarrow> ('e, 'c) loader" where
  "handleEndEvent now l =
     (case flush now (ld_writer l) of (w, r) \<Rightarrow> after_final_flush r (set_writer w l))"

section \<open>The loader, the reader and the sink as a transition system\<close>

text \<open>
  One action is one turn of the event loop: a \<^verbatim>\<open>'line'\<close>, \<^verbatim>\<open>'end'\<close> or \<^verbatim>\<open>'error'\<close> event
  of the reader, or the settlement of a sink promise. The reader emits no line while it
  is paused, closed or ended, and emits \<^verbatim>\<open>'end'\<close> once. Promise callbacks that a turn
  makes runnable (the \<^verbatim>\<open>catch\<close> of \<^verbatim>\<open>add\<close>, the chain of the final flush, the callbacks
  of \<^verbatim>\<open>ready\<close>) run before the next turn, so they are part of the same action.
\<close>

datatype 'c laction =
    LineEv string int
  | EndEv int
  | ErrorEv string
  | LSinkResolve int int
  | LSinkReject int 'c

definition resume_waiters :: "int \<Rightarrow> ('e, 'c) loader \<Rightarrow> ('e, 'c) loader" where
  "resume_waiters now l =
     (let rs = ready_resolved (ld_writer l);
          go = filter (\<lambda>(p, entity). p \<in> set rs) (waiting l);
          l1 = l\<lparr>waiting := filter (\<lambda>(p, entity). p \<notin> set rs) (waiting l)\<rparr>
      in foldl (\<lambda>l2 (p, entity). resume_line now entity l2) l1 go)"

definition settled_final ::
  "int \<Rightarrow> 'c status \<Rightarrow> ('e, 'c) loader \<Rightarrow> ('e, 'c) loader" where
  "settled_final rn r l =
     (if final_flush l = Some rn then after_final_flush r (l\<lparr>final_flush := None\<rparr>) else l)"

fun lstep ::
  "(string \<Rightarrow> 'c error + 'e option) \<Rightarrow> ('e, 'c) loader \<Rightarrow> 'c laction \<Rightarrow> ('e, 'c) loader" where
  "lstep conv l (LineEv line now) =
     (if lr_paused l \<or> lr_closed l \<or> lr_ended l then l
      else resume_waiters now (handleLineEvent conv now line l))"
| "lstep conv l (EndEv now) =
     (if lr_ended l then l else handleEndEvent now (l\<lparr>lr_ended := True\<rparr>))"
| "lstep conv l (ErrorEv msg) = handleErrorEvent (SourceReadError msg) l"
| "lstep conv l (LSinkResolve rn now) =
     (if rn \<in> set (in_flight (ld_writer l))
      then case sink_resolved rn now (ld_writer l) of
             (w, r) \<Rightarrow> resume_waiters now (settled_final rn r (set_writer w l))
      else l)"
| "lstep conv l (LSinkReject rn c) =
     (if rn \<in> set (in_flight (ld_writer l))
      then case sink_rejected rn c (ld_writer l) of
             (w, r) \<Rightarrow> settled_final rn r (set_writer w l)
      else l)"

fun lrun ::
  "(string \<Rightarrow> 'c error + 'e option) \<Rightarrow> ('e, 'c) loader \<Rightarrow> 'c laction list \<Rightarrow> ('e, 'c) loader" where
  "lrun conv l [] = l"
| "lrun conv l (a # as) = lrun conv (lstep conv l a) as"

text \<open>The \<^verbatim>\<open>'line'\<close> events for a list of lines, each with the clock value at its turn.\<close>

definition line_events :: "(string \<times> int) list \<Rightarrow> 'c laction list" where
  "line_events lts = map (\<lambda>(line, now). LineEv line now) lts"

text \<open>\<open>cursor_eq l l'\<close>: the count of consumed lines, the lines consumed and the limit are
  the same in \<open>l\<close> and \<open>l'\<close>. \<open>count_inv n l\<close>: the limit is \<open>n\<close>, the count is the
  number of lines handed to the converter, and it is at most \<open>n\<close>.\<close>

definition cursor_eq :: "('e, 'c) loader \<Rightarrow> ('e, 'c) loader \<Rightarrow> bool" where
  "cursor_eq l l' =
     (ld_count l' = ld_count l \<and> converted l' = converted l \<and> ld_nLines l' = ld_nLines l)"

definition count_inv :: "int \<Rightarrow> ('e, 'c) loader \<Rightarrow> bool" where
  "count_inv n l =
     (ld_nLines l = Some n \<and> ld_count l = int (length (converted l)) \<and> ld_count l \<le> n)"

section \<open>Properties of the writer\<close>

lemmas writer_defs =
  init_writer_def flush_def add_def js_rem_def changeStateToBusy_def changeStateToIdle_def
  startTimer_def endTimer_def emit_def emit_idle_def catch_emit_def sink_rejected_def
  sink_resolved_def flush_abort_def flush_resume_def ready_def

subsection \<open>Construction\<close>

text \<open>
  C5, as the claim states it, fails: a \<^verbatim>\<open>buffer_size\<close> of 0 is falsy, so the constructor
  replaces it by the default 500 before any check and returns a writer.
\<close>

theorem new_writer_zero_buffer_size_accepted:
  "new_writer (Some ())
     (Some \<lparr>buffer_size = Some 0, max_concurrent_requests = Some 10, opt_upsert = False\<rparr>) =
   (Inr (init_writer 500 10 False) :: string error + (nat, string) writer)"
  by (simp add: new_writer_def or_default_def)

text \<open>
  C5, amended. The constructor throws exactly when the Datastore client is missing or
  a threshold (\<^verbatim>\<open>buffer_size\<close>, \<^verbatim>\<open>max_concurrent_requests\<close>) is negative. In every other
  case it returns a writer, and a threshold of 0 is treated like a missing one: the
  writer gets the default in its place, 500 for \<^verbatim>\<open>buffer_size\<close> and 10 for
  \<^verbatim>\<open>max_concurrent_requests\<close>, and the given value otherwise. Missing options give 500,
  10 and no upsert.
\<close>

theorem new_writer_throws_iff:
  fixes ds :: "'d option" and opts :: "writer_options option"
  shows
    "(isl (new_writer ds opts :: 'c error + ('e, 'c) writer) \<longleftrightarrow>
        ds = None \<or>
        (\<exists>v n. opts = Some v \<and> buffer_size v = Some n \<and> n < 0) \<or>
        (\<exists>v n. opts = Some v \<and> max_concurrent_requests v = Some n \<and> n < 0)) \<and>
     (ds \<noteq> None \<longrightarrow>
        new_writer ds None = (Inr (init_writer 500 10 False) :: 'c error + ('e, 'c) writer)) \<and>
     (ds \<noteq> None \<and> (\<forall>n. buffer_size v = Some n \<longrightarrow> 0 \<le> n) \<and>
      (\<forall>n. max_concurrent_requests v = Some n \<longrightarrow> 0 \<le> n) \<longrightarrow>
        new_writer ds (Some v) =
          (Inr (init_writer
                 (case buffer_size v of None \<Rightarrow> 500 | Some n \<Rightarrow> if n = 0 then 500 else n)
                 (case max_concurrent_requests v of
                    None \<Rightarrow> 10 | Some n \<Rightarrow> if n = 0 then 10 else n)
                 (opt_upsert v)) :: 'c error + ('e, 'c) writer))"
proof -
  have a: "isl (new_writer ds opts :: 'c error + ('e, 'c) writer) \<longleftrightarrow>
        ds = None \<or>
        (\<exists>v n. opts = Some v \<and> buffer_size v = Some n \<and> n < 0) \<or>
        (\<exists>v n. opts = Some v \<and> max_concurrent_requests v = Some n \<and> n < 0)"
    by (cases opts)
       (auto simp: new_writer_def or_default_def default_writer_options_def
             split: option.splits)
  have b: "ds \<noteq> None \<longrightarrow>
        new_writer ds None = (Inr (init_writer 500 10 False) :: 'c error + ('e, 'c) writer)"
    by (simp add: new_writer_def or_default_def default_writer_options_def)
  have c: "ds \<noteq> None \<and> (\<forall>n. buffer_size v = Some n \<longrightarrow> 0 \<le> n) \<and>
      (\<forall>n. max_concurrent_requests v = Some n \<longrightarrow> 0 \<le> n) \<longrightarrow>
        new_writer ds (Some v) =
          (Inr (init_writer
                 (case buffer_size v of None \<Rightarrow> 500 | Some n \<Rightarrow> if n = 0 then 500 else n)
                 (case max_concurrent_requests v of
                    None \<Rightarrow> 10 | Some n \<Rightarrow> if n = 0 then 10 else n)
                 (opt_upsert v)) :: 'c error + ('e, 'c) writer)"
    by (auto simp: new_writer_def or_default_def split: option.splits)
  from a b c show ?thesis by blast
qed

theorem new_writer_throws_iff_witness:
  "new_writer (Some ())
     (Some \<lparr>buffer_size = Some 0, max_concurrent_requests = Some 0, opt_upsert = True\<rparr>) =
     (Inr (init_writer 500 10 True) :: string error + (nat, string) writer) \<and>
   new_writer (Some ())
     (Some \<lparr>buffer_size = None, max_concurrent_requests = Some 7, opt_upsert = False\<rparr>) =
     (Inr (init_writer 500 7 False) :: string error + (nat, string) writer) \<and>
   new_writer (Some ())
     (Some \<lparr>buffer_size = Some 20, max_concurrent_requests = None, opt_upsert = False\<rparr>) =
     (Inr (init_writer 20 10 False) :: string error + (nat, string) writer) \<and>
   new_writer (Some ()) None =
     (Inr (init_writer 500 10 False) :: string error + (nat, string) writer) \<and>
   isl (new_writer (Some ())
     (Some \<lparr>buffer_size = Some (- 1), max_concurrent_requests = Some 7, opt_upsert = True\<rparr>)
     :: string error + (nat, string) writer) \<and>
   isl (new_writer (Some ())
     (Some \<lparr>buffer_size = Some 5, max_concurrent_requests = Some (- 2), opt_upsert = True\<rparr>)
     :: string error + (nat, string) writer) \<and>
   isl (new_writer (None :: unit option)
     (Some \<lparr>buffer_size = Some 5, max_concurrent_requests = Some 7, opt_upsert = True\<rparr>)
     :: string error + (nat, string) writer)"
proof -
  note t = new_writer_throws_iff [where ?'c = string and ?'e = nat]
  have "new_writer (Some ())
     (Some \<lparr>buffer_size = Some 0, max_concurrent_requests = Some 0, opt_upsert = True\<rparr>) =
     (Inr (init_writer 500 10 True) :: string error + (nat, string) writer)"
    using t [of "Some ()" None
               "\<lparr>buffer_size = Some 0, max_concurrent_requests = Some 0, opt_upsert = True\<rparr>"]
    by simp
  moreover have "new_writer (Some ())
     (Some \<lparr>buffer_size = None, max_concurrent_requests = Some 7, opt_upsert = False\<rparr>) =
     (Inr (init_writer 500 7 False) :: string error + (nat, string) writer)"
    using t [of "Some ()" None
               "\<lparr>buffer_size = None, max_concurrent_requests = Some 7, opt_upsert = False\<rparr>"]
    by simp
  moreover have "new_writer (Some ())
     (Some \<lparr>buffer_size = Some 20, max_concurrent_requests = None, opt_upsert = False\<rparr>) =
     (Inr (init_writer 20 10 False) :: string error + (nat, string) writer)"
    using t [of "Some ()" None
               "\<lparr>buffer_size = Some 20, max_concurrent_requests = None, opt_upsert = False\<rparr>"]
    by simp
  moreover have "new_writer (Some ()) None =
     (Inr (init_writer 500 10 False) :: string error + (nat, string) writer)"
    using t [of "Some ()" None undefined] by simp
  moreover have "isl (new_writer (Some ())
     (Some \<lparr>buffer_size = Some (- 1), max_concurrent_requests = Some 7, opt_upsert = True\<rparr>)
     :: string error + (nat, string) writer)"
    using t [of "Some ()"
               "Some \<lparr>buffer_size = Some (- 1), max_concurrent_requests = Some 7,
                      opt_upsert = True\<rparr>" undefined]
    by simp
  moreover have "isl (new_writer (Some ())
     (Some \<lparr>buffer_size = Some 5, max_concurrent_requests = Some (- 2), opt_upsert = True\<rparr>)
     :: string error + (nat, string) writer)"
    using t [of "Some ()"
               "Some \<lparr>buffer_size = Some 5, max_concurrent_requests = Some (- 2),
                      opt_upsert = True\<rparr>" undefined]
    by simp
  moreover have "isl (new_writer (None :: unit option)
     (Some \<lparr>buffer_size = Some 5, max_concurrent_requests = Some 7, opt_upsert = True\<rparr>)
     :: string error + (nat, string) writer)"
    using t [of "None :: unit option"
               "Some \<lparr>buffer_size = Some 5, max_concurrent_requests = Some 7,
                      opt_upsert = True\<rparr>" undefined]
    by simp
  ultimately show ?thesis by blast
qed

subsection \<open>Flushing\<close>

text \<open>
  C6. Calling \<^verbatim>\<open>flush\<close> on an empty buffer is a no-op: the promise is fulfilled at once
  and the writer is left exactly as it was, so no sink call is made, no event (stats,
  busy, idle) is emitted and no counter changes.
\<close>

theorem flush_empty_noop:
  "entities w = [] \<Longrightarrow> flush now w = (w, Fulfilled)"
  by (simp add: flush_def)

theorem flush_empty_noop_witness:
  "entities (init_writer 3 1 False :: (nat, string) writer) = [] \<and>
   flush 7 (init_writer 3 1 False :: (nat, string) writer) = (init_writer 3 1 False, Fulfilled)"
  using flush_empty_noop [of "init_writer 3 1 False :: (nat, string) writer" 7]
  by (simp add: init_writer_def)

text \<open>
  C1, evaluated where the sink call fails. A writer with \<^verbatim>\<open>buffer_size\<close> 2 and
  \<^verbatim>\<open>max_concurrent_requests\<close> 1 holds one entity; \<^verbatim>\<open>flush\<close> submits it as request 1 and
  the sink rejects with \<^verbatim>\<open>boom\<close>. The promise of \<^verbatim>\<open>flush\<close> is rejected with that cause,
  but the count of concurrent requests is still 1, the writer is still busy, the timer
  is still running, and no \<^verbatim>\<open>stats\<close> (and no \<^verbatim>\<open>idle\<close>) event was emitted.
\<close>

theorem sink_failure_skips_release_and_stats:
  "case flush 10 (run (init_writer 2 1 False) [Add (Some (7::nat)) 5]) of
     (w1, r1) \<Rightarrow>
       r1 = Awaiting 1 \<and> sink_calls w1 = [(Insert, 1, [7])] \<and> concurrentRequests w1 = 1 \<and>
       (case sink_rejected 1 ''boom'' w1 of
          (w2, r2) \<Rightarrow>
            r2 = Rejected (SinkCause ''boom'') \<and> concurrentRequests w2 = 1 \<and>
            isBusy w2 \<and> isTicking w2 \<and> emitted w2 = [Busy])"
  by (simp add: writer_defs)

text \<open>
  C3, evaluated on a run with an explicit flush before the last \<^verbatim>\<open>add\<close>. With
  \<^verbatim>\<open>buffer_size\<close> 3: two entities are added, \<^verbatim>\<open>flush\<close> submits them and the request
  completes, then a third entity is added. \<^verbatim>\<open>#bufferCount\<close> counts every \<^verbatim>\<open>add\<close> since
  construction and is now 3, so \<^verbatim>\<open>add\<close> flushes: the automatic batch holds 1 entity,
  not 3.
\<close>

theorem automatic_flush_after_explicit_flush:
  "batches_from 0
     (run (init_writer 3 10 False :: (nat, string) writer)
        [Add (Some 1) 0, Add (Some 2) 1, Flush 2, SinkResolve 1 3, Add (Some 3) 4]) =
   [[1, 2], [3]]"
  by (simp add: writer_defs batches_from_def)

text \<open>
  C4, evaluated on two completed flushes (durations 15 and 20). Each emits one
  \<^verbatim>\<open>stats\<close> event with the keys \<^verbatim>\<open>start\<close>, \<^verbatim>\<open>end\<close>, \<^verbatim>\<open>request_count\<close> and \<^verbatim>\<open>elapsed\<close>, and
  \<^verbatim>\<open>elapsed\<close> is the duration of that flush. The running sum, 35 after the second
  flush, is in the field \<^verbatim>\<open>elapsed\<close> of the writer and in no key of the payload.
\<close>

theorem stats_payload_has_no_running_sum:
  "let w = run (init_writer 1 10 False :: (nat, string) writer)
             [Add (Some 1) 10, SinkResolve 1 25, Add (Some 2) 30, SinkResolve 2 50]
   in emitted w =
        [Stats \<lparr>st_start = 10, st_end = 25, st_request_count = 1, st_elapsed = 15\<rparr>,
         Stats \<lparr>st_start = 30, st_end = 50, st_request_count = 2, st_elapsed = 20\<rparr>] \<and>
      elapsed w = 35"
  by (simp add: writer_defs)

subsection \<open>The concurrency gate\<close>

lemma removeAll_single: "length xs \<le> 1 \<Longrightarrow> rn \<in> set xs \<Longrightarrow> removeAll rn xs = []"
  by (cases xs) auto

lemma gate_inv_flush: "gate_inv w \<Longrightarrow> gate_inv (fst (flush now w))"
  by (auto simp: gate_inv_def flush_def Let_def changeStateToBusy_def startTimer_def emit_def)

lemma gate_inv_catch_emit: "gate_inv (catch_emit r w) = gate_inv w"
  by (auto simp: gate_inv_def catch_emit_def emit_def split: status.splits)

lemma gate_inv_add: "gate_inv w \<Longrightarrow> add now e w = Inr w' \<Longrightarrow> gate_inv w'"
proof -
  assume inv: "gate_inv w" and a: "add now e w = Inr w'"
  from a obtain x where e: "e = Some x" by (cases e) (auto simp: add_def)
  let ?w2 = "w\<lparr>entities := entities w @ [x], bufferCount := bufferCount w + 1\<rparr>"
  have inv2: "gate_inv ?w2" using inv by (simp add: gate_inv_def)
  show ?thesis
  proof (cases "js_rem (bufferCount ?w2) (bufferSize ?w2) = Some 0")
    case False
    with a e have "w' = ?w2" by (simp add: add_def Let_def)
    with inv2 show ?thesis by simp
  next
    case True
    obtain w3 r where f: "flush now ?w2 = (w3, r)" by (cases "flush now ?w2")
    have inv3: "gate_inv w3" using gate_inv_flush [OF inv2, of now] f by simp
    show ?thesis
    proof (cases r)
      case (Awaiting rn)
      with a e True f have "w' = w3\<lparr>auto_flushes := auto_flushes w3 @ [rn]\<rparr>"
        by (simp add: add_def Let_def)
      with inv3 show ?thesis by (simp add: gate_inv_def)
    next
      case Fulfilled
      with a e True f have "w' = catch_emit r w3" by (simp add: add_def Let_def)
      with inv3 show ?thesis by (simp add: gate_inv_catch_emit)
    next
      case (Rejected err)
      with a e True f have "w' = catch_emit r w3" by (simp add: add_def Let_def)
      with inv3 show ?thesis by (simp add: gate_inv_catch_emit)
    qed
  qed
qed

lemma gate_inv_ready: "gate_inv w \<Longrightarrow> gate_inv (snd (ready w))"
  by (auto simp: gate_inv_def ready_def Let_def)

lemma in_flight_pos: "rn \<in> set xs \<Longrightarrow> int (length xs) \<le> c \<Longrightarrow> 0 < c"
  by (cases xs) auto

lemma gate_inv_resolved:
  assumes "gate_inv w" and "rn \<in> set (in_flight w)"
  shows "gate_inv (fst (sink_resolved rn now w))"
proof -
  have pos: "0 < concurrentRequests w"
    using assms in_flight_pos [of rn "in_flight w" "concurrentRequests w"]
    by (simp add: gate_inv_def)
  have tick: "isTicking w" using assms by (auto simp: gate_inv_def)
  have none: "removeAll rn (in_flight w) = []"
    using assms by (simp add: gate_inv_def removeAll_single)
  show ?thesis
    using assms(1) pos tick none
    by (auto simp: gate_inv_def sink_resolved_def flush_resume_def endTimer_def Let_def
          changeStateToIdle_def emit_idle_def emit_def catch_emit_def)
qed

lemma gate_inv_rejected:
  "gate_inv w \<Longrightarrow> rn \<in> set (in_flight w) \<Longrightarrow> gate_inv (fst (sink_rejected rn c w))"
  by (auto simp: gate_inv_def sink_rejected_def flush_abort_def emit_def catch_emit_def
        removeAll_single)

lemma gate_inv_step: "gate_inv w \<Longrightarrow> gate_inv (step w a)"
  by (cases a)
     (auto simp: gate_inv_flush gate_inv_ready gate_inv_resolved gate_inv_rejected
           intro: gate_inv_add split: sum.splits)

lemma gate_inv_run: "gate_inv w \<Longrightarrow> gate_inv (run w as)"
  by (induction as arbitrary: w) (auto simp: gate_inv_step)

lemma gate_inv_init: "0 < mc \<Longrightarrow> gate_inv (init_writer bs mc up)"
  by (simp add: gate_inv_def init_writer_def)

lemma max_flush: "maxConcurrentRequests (fst (flush now w)) = maxConcurrentRequests w"
  by (simp add: flush_def Let_def changeStateToBusy_def startTimer_def emit_def)

lemma max_catch_emit: "maxConcurrentRequests (catch_emit r w) = maxConcurrentRequests w"
  by (simp add: catch_emit_def emit_def split: status.splits)

lemma max_add: "add now e w = Inr w' \<Longrightarrow> maxConcurrentRequests w' = maxConcurrentRequests w"
  using max_flush [of now "w\<lparr>entities := entities w @ [the e], bufferCount := bufferCount w + 1\<rparr>"]
  by (auto simp: add_def Let_def max_catch_emit split: option.splits if_splits prod.splits status.splits)

lemma max_step: "maxConcurrentRequests (step w a) = maxConcurrentRequests w"
  by (cases a)
     (auto simp: max_flush max_add ready_def Let_def sink_resolved_def sink_rejected_def
        flush_resume_def flush_abort_def endTimer_def changeStateToIdle_def emit_idle_def
        emit_def catch_emit_def split: sum.splits)

lemma count_flush:
  "concurrentRequests (fst (flush now w)) =
     (if entities w = [] then concurrentRequests w else concurrentRequests w + 1)"
  by (simp add: flush_def Let_def changeStateToBusy_def startTimer_def emit_def)

lemma count_catch_emit: "concurrentRequests (catch_emit r w) = concurrentRequests w"
  by (simp add: catch_emit_def emit_def split: status.splits)

lemma count_add:
  "add now (Some x) w = Inr w' \<Longrightarrow>
   concurrentRequests w' =
     (if flushes w (Add (Some x) now) then concurrentRequests w + 1 else concurrentRequests w)"
  using count_flush [of now "w\<lparr>entities := entities w @ [x], bufferCount := bufferCount w + 1\<rparr>"]
  by (auto simp: add_def Let_def count_catch_emit split: if_splits prod.splits status.splits)

lemma count_step_le:
  assumes "gate_inv w" and "concurrentRequests w \<le> maxConcurrentRequests w"
    and "flushes w a \<Longrightarrow> \<not> isBusy w"
  shows "concurrentRequests (step w a) \<le> maxConcurrentRequests w"
proof (cases a)
  case (Add e now)
  show ?thesis
  proof (cases e)
    case None
    with Add assms show ?thesis by (simp add: add_def)
  next
    case (Some x)
    show ?thesis
    proof (cases "add now (Some x) w")
      case (Inl err)
      with Add Some assms show ?thesis by simp
    next
      case (Inr w')
      from count_add [OF Inr] assms Add Some Inr show ?thesis
        by (auto simp: gate_inv_def)
    qed
  qed
next
  case (Flush now)
  with assms show ?thesis by (auto simp: count_flush gate_inv_def)
next
  case Ready
  with assms show ?thesis by (simp add: ready_def Let_def)
next
  case (SinkResolve rn now)
  with assms show ?thesis
    by (auto simp: sink_resolved_def flush_resume_def endTimer_def Let_def
          changeStateToIdle_def emit_idle_def emit_def catch_emit_def)
next
  case (SinkReject rn c)
  with assms show ?thesis
    by (auto simp: sink_rejected_def flush_abort_def emit_def catch_emit_def)
qed

lemma max_run: "maxConcurrentRequests (run w as) = maxConcurrentRequests w"
  by (induction as arbitrary: w) (simp_all add: max_step)

lemma count_run_le:
  "gate_inv w \<Longrightarrow> concurrentRequests w \<le> maxConcurrentRequests w \<Longrightarrow> gated w as \<Longrightarrow>
   concurrentRequests (run w as) \<le> maxConcurrentRequests w"
proof (induction as arbitrary: w)
  case Nil
  then show ?case by simp
next
  case (Cons a as)
  have le: "concurrentRequests (step w a) \<le> maxConcurrentRequests (step w a)"
    using count_step_le [of w a] Cons.prems by (auto simp: max_step split: if_splits)
  have inv: "gate_inv (step w a)" using Cons.prems by (simp add: gate_inv_step)
  have g: "gated (step w a) as" using Cons.prems by simp
  have "concurrentRequests (run (step w a) as) \<le> maxConcurrentRequests (step w a)"
    using inv le g by (rule Cons.IH)
  then show ?case by (simp add: max_step)
qed

lemma gated_take: "gated w as \<Longrightarrow> gated w (take k as)"
proof (induction as arbitrary: w k)
  case Nil
  then show ?case by simp
next
  case (Cons a as)
  then show ?case by (cases k) auto
qed

text \<open>
  C2, as the claim states it, fails: with \<^verbatim>\<open>max_concurrent_requests\<close> 1 and
  \<^verbatim>\<open>buffer_size\<close> 1, a second \<^verbatim>\<open>add\<close> while the first request is in flight makes
  \<^verbatim>\<open>flush\<close> increment the count to 2 before it throws, and the count stays there.
\<close>

theorem active_count_exceeds_maximum:
  "\<not> concurrentRequests
       (run (init_writer 1 1 False :: (nat, string) writer) [Add (Some 1) 0, Add (Some 2) 1])
     \<le> maxConcurrentRequests
       (run (init_writer 1 1 False :: (nat, string) writer) [Add (Some 1) 0, Add (Some 2) 1])"
  by (simp add: writer_defs)

text \<open>
  C2, amended. At every point of every sequence of writer operations the count of
  concurrent requests is at least 0. It is at most \<^verbatim>\<open>max_concurrent_requests\<close> at every
  point of every sequence in which no flush of a non-empty buffer starts while the
  writer is busy, as the comment on \<^verbatim>\<open>ready\<close> asks of the caller.
\<close>

theorem active_count_bounds:
  assumes "0 < mc"
  shows "0 \<le> concurrentRequests (run (init_writer bs mc up) as) \<and>
         (gated (init_writer bs mc up) as \<longrightarrow>
            (\<forall>k. concurrentRequests (run (init_writer bs mc up) (take k as)) \<le> mc))"
proof -
  let ?w = "init_writer bs mc up :: ('a, 'b) writer"
  have inv: "gate_inv ?w" using assms by (rule gate_inv_init)
  have "gate_inv (run ?w as)" using inv by (rule gate_inv_run)
  then have lower: "0 \<le> concurrentRequests (run ?w as)" by (simp add: gate_inv_def)
  have upper: "concurrentRequests (run ?w (take k as)) \<le> mc" if g: "gated ?w as" for k
  proof -
    have "gated ?w (take k as)" using g by (rule gated_take)
    with inv have "concurrentRequests (run ?w (take k as)) \<le> maxConcurrentRequests ?w"
      using assms by (intro count_run_le) (simp_all add: init_writer_def)
    then show ?thesis by (simp add: init_writer_def)
  qed
  from lower upper show ?thesis by blast
qed

theorem active_count_bounds_witness:
  "(0::int) < 1 \<and>
   gated (init_writer 1 1 False :: (nat, string) writer)
     [Add (Some 1) 0, SinkResolve 1 5, Add (Some 2) 6] \<and>
   0 \<le> concurrentRequests (run (init_writer 1 1 False :: (nat, string) writer)
          [Add (Some 1) 0, SinkResolve 1 5, Add (Some 2) 6]) \<and>
   concurrentRequests (run (init_writer 1 1 False :: (nat, string) writer)
          (take 3 [Add (Some 1) 0, SinkResolve 1 5, Add (Some 2) 6])) \<le> 1"
  using active_count_bounds
          [of 1 1 False "[Add (Some (1::nat)) 0, SinkResolve 1 5, Add (Some 2) 6 :: (nat, string) action]"]
  by (simp add: writer_defs)

subsection \<open>What a failed flush does to its batch\<close>

lemma entities_flush: "entities (fst (flush now w)) = []"
  by (simp add: flush_def Let_def changeStateToBusy_def startTimer_def emit_def)

lemma sink_calls_flush:
  "sink_calls (fst (flush now w)) = sink_calls w \<or>
   (\<exists>op rn. sink_calls (fst (flush now w)) = sink_calls w @ [(op, rn, entities w)])"
  by (simp add: flush_def Let_def changeStateToBusy_def startTimer_def emit_def)

lemma sink_calls_flush_rejected:
  "flush now w = (w1, Rejected err) \<Longrightarrow> sink_calls w1 = sink_calls w"
  by (auto simp: flush_def Let_def changeStateToBusy_def startTimer_def emit_def
        split: if_splits)

lemma entities_catch_emit: "entities (catch_emit r w) = entities w"
  by (simp add: catch_emit_def emit_def split: status.splits)

lemma sink_calls_catch_emit: "sink_calls (catch_emit r w) = sink_calls w"
  by (simp add: catch_emit_def emit_def split: status.splits)

lemma add_cases:
  assumes "add now (Some x) w = Inr w'"
  obtains
    (keep) "w' = w\<lparr>entities := entities w @ [x], bufferCount := bufferCount w + 1\<rparr>"
  | (auto_flush) w3 r where
      "flush now (w\<lparr>entities := entities w @ [x], bufferCount := bufferCount w + 1\<rparr>) = (w3, r)"
      "w' = (case r of Awaiting rn \<Rightarrow> w3\<lparr>auto_flushes := auto_flushes w3 @ [rn]\<rparr>
                     | _ \<Rightarrow> catch_emit r w3)"
  using assms
  by (auto simp: add_def Let_def split: if_splits prod.splits status.splits)

lemma from_buffer_add:
  assumes "add now (Some x) w = Inr w'"
  shows "from_buffer w [x] w'"
  using assms
proof (cases rule: add_cases)
  case keep
  then show ?thesis by (simp add: from_buffer_def)
next
  case (auto_flush w3 r)
  let ?w2 = "w\<lparr>entities := entities w @ [x], bufferCount := bufferCount w + 1\<rparr>"
  have e: "entities w3 = []" using entities_flush [of now ?w2] auto_flush(1) by simp
  have s: "sink_calls w3 = sink_calls w \<or>
           (\<exists>op rn. sink_calls w3 = sink_calls w @ [(op, rn, entities w @ [x])])"
    using sink_calls_flush [of now ?w2] auto_flush(1) by simp
  have "entities w' = []" and "sink_calls w' = sink_calls w3"
    using auto_flush(2) e
    by (auto simp: entities_catch_emit sink_calls_catch_emit split: status.splits)
  with s show ?thesis by (auto simp: from_buffer_def)
qed

lemma from_buffer_step: "from_buffer w (added [a]) (step w a)"
proof (cases a)
  case (Add e now)
  show ?thesis
  proof (cases e)
    case None
    with Add show ?thesis by (simp add: add_def from_buffer_def)
  next
    case (Some x)
    show ?thesis
    proof (cases "add now (Some x) w")
      case (Inl err)
      with Add Some show ?thesis by (auto simp: from_buffer_def)
    next
      case (Inr w')
      with Add Some from_buffer_add [OF Inr] show ?thesis by simp
    qed
  qed
next
  case (Flush now)
  with entities_flush [of now w] sink_calls_flush [of now w] show ?thesis
    by (auto simp: from_buffer_def)
next
  case Ready
  then show ?thesis by (simp add: from_buffer_def ready_def Let_def)
next
  case (SinkResolve rn now)
  then show ?thesis
    by (simp add: from_buffer_def sink_resolved_def flush_resume_def endTimer_def Let_def
          changeStateToIdle_def emit_idle_def emit_def catch_emit_def)
next
  case (SinkReject rn c)
  then show ?thesis
    by (simp add: from_buffer_def sink_rejected_def flush_abort_def emit_def catch_emit_def)
qed

lemma added_Cons: "set (added (a # as)) = set (added [a]) \<union> set (added as)"
  by (cases "(a # as)" rule: added.cases) auto

lemma from_buffer_trans:
  "from_buffer w xs w1 \<Longrightarrow> from_buffer w1 ys w2 \<Longrightarrow> from_buffer w (xs @ ys) w2"
  unfolding from_buffer_def by fastforce

lemma from_buffer_mono:
  "from_buffer w xs w' \<Longrightarrow> set xs \<subseteq> set ys \<Longrightarrow> from_buffer w ys w'"
  unfolding from_buffer_def by blast

lemma from_buffer_run: "from_buffer w (added as) (run w as)"
proof (induction as arbitrary: w)
  case Nil
  show ?case by (simp add: from_buffer_def)
next
  case (Cons a as)
  have s1: "from_buffer w (added [a]) (step w a)" by (rule from_buffer_step)
  have s2: "from_buffer (step w a) (added as) (run (step w a) as)" by (rule Cons.IH)
  have s3: "from_buffer w (added [a] @ added as) (run (step w a) as)"
    using s1 s2 by (rule from_buffer_trans)
  have s4: "set (added [a] @ added as) \<subseteq> set (added (a # as))"
    using added_Cons [of a as] by simp
  have s5: "from_buffer w (added (a # as)) (run (step w a) as)"
    using s3 s4 by (rule from_buffer_mono)
  have s6: "run w (a # as) = run (step w a) as" by (rule run.simps)
  show ?case unfolding s6 by (rule s5)
qed

lemma later_batches:
  assumes "entities w = []"
  shows "set (entities (run w as)) \<subseteq> set (added as) \<and>
         (\<forall>b \<in> set (batches_from (length (sink_calls w)) (run w as)). set b \<subseteq> set (added as))"
proof -
  obtain new where
    e: "set (entities (run w as)) \<subseteq> set (added as)" and
    n: "sink_calls (run w as) = sink_calls w @ new" and
    b: "\<forall>c \<in> set new. set (snd (snd c)) \<subseteq> set (added as)"
    using from_buffer_run [of w as] assms by (auto simp: from_buffer_def)
  have "batches_from (length (sink_calls w)) (run w as) = map (\<lambda>c. snd (snd c)) new"
    using n by (simp add: batches_from_def case_prod_beta)
  with e b show ?thesis by auto
qed

text \<open>
  C9. \<^verbatim>\<open>flush\<close> takes and clears the buffer before the concurrency check and the sink
  call: whatever the outcome, the buffer is empty afterwards. When the call of \<^verbatim>\<open>flush\<close>
  is rejected before the sink call (the concurrency limit is exceeded, or the timer
  assertion fails), no sink call was made for the batch. When the sink rejects a request,
  the promise is rejected with the cause, and neither the buffer nor the list of sink
  calls changes: the batch is not put back and not sent again. From the flush on, in
  every continuation, the buffer and every batch submitted later hold only entities
  added later: the records of the failed batch are gone from the writer.
\<close>

theorem failed_flush_discards_batch:
  assumes "flush now w = (w1, r)"
  shows
    "entities w1 = [] \<and>
     (\<forall>err. r = Rejected err \<longrightarrow> sink_calls w1 = sink_calls w) \<and>
     (\<forall>rn c w'. snd (sink_rejected rn c w') = Rejected (SinkCause c) \<and>
        entities (fst (sink_rejected rn c w')) = entities w' \<and>
        sink_calls (fst (sink_rejected rn c w')) = sink_calls w') \<and>
     (\<forall>as. set (entities (run w1 as)) \<subseteq> set (added as) \<and>
        (\<forall>b \<in> set (batches_from (length (sink_calls w1)) (run w1 as)).
           set b \<subseteq> set (added as)))"
proof -
  have e: "entities w1 = []" using entities_flush [of now w] assms by simp
  have s: "\<forall>err. r = Rejected err \<longrightarrow> sink_calls w1 = sink_calls w"
    using assms by (auto dest: sink_calls_flush_rejected)
  have j: "\<forall>rn c w'. snd (sink_rejected rn c w') = Rejected (SinkCause c) \<and>
        entities (fst (sink_rejected rn c w')) = entities w' \<and>
        sink_calls (fst (sink_rejected rn c w')) = sink_calls w'"
    by (simp add: sink_rejected_def flush_abort_def catch_emit_def emit_def)
  from e s j later_batches [OF e] show ?thesis by blast
qed

theorem failed_flush_discards_batch_witness:
  "flush 3 (run (init_writer 2 2 False :: (nat, string) writer)
              [Add (Some 1) 0, Add (Some 2) 1, Add (Some 3) 2]) =
     (fst (flush 3 (run (init_writer 2 2 False)
              [Add (Some 1) 0, Add (Some 2) 1, Add (Some 3) 2])), Rejected AssertionError) \<and>
   entities (run (init_writer 2 2 False :: (nat, string) writer)
              [Add (Some 1) 0, Add (Some 2) 1, Add (Some 3) 2]) = [3] \<and>
   entities (fst (flush 3 (run (init_writer 2 2 False :: (nat, string) writer)
              [Add (Some 1) 0, Add (Some 2) 1, Add (Some 3) 2]))) = [] \<and>
   sink_calls (fst (flush 3 (run (init_writer 2 2 False :: (nat, string) writer)
              [Add (Some 1) 0, Add (Some 2) 1, Add (Some 3) 2]))) = [(Insert, 1, [1, 2])] \<and>
   batches_from 1
     (run (fst (flush 3 (run (init_writer 2 2 False :: (nat, string) writer)
              [Add (Some 1) 0, Add (Some 2) 1, Add (Some 3) 2])))
        [SinkResolve 1 5, Add (Some 4) 6, Add (Some 5) 7]) = [[4]] \<and>
   added [SinkResolve 1 5, Add (Some 4) 6, Add (Some 5) 7 :: (nat, string) action] = [4, 5]"
  using failed_flush_discards_batch
          [of 3 "run (init_writer 2 2 False :: (nat, string) writer)
                   [Add (Some 1) 0, Add (Some 2) 1, Add (Some 3) 2]"
              "fst (flush 3 (run (init_writer 2 2 False :: (nat, string) writer)
                   [Add (Some 1) 0, Add (Some 2) 1, Add (Some 3) 2]))"
              "Rejected AssertionError"]
  by (simp add: writer_defs batches_from_def)

subsection \<open>Waiting for the writer\<close>

lemma quiet_refl: "quiet w w"
  by (simp add: quiet_def)

lemma quiet_flush: "quiet w (fst (flush now w))"
  by (simp add: quiet_def flush_def Let_def changeStateToBusy_def startTimer_def emit_def)

lemma quiet_catch_emit: "quiet w (catch_emit r w)"
  by (simp add: quiet_def catch_emit_def emit_def split: status.splits)

lemma quiet_trans: "quiet w w1 \<Longrightarrow> quiet w1 w2 \<Longrightarrow> quiet w w2"
  by (auto simp: quiet_def)

lemma quiet_add: "add now e w = Inr w' \<Longrightarrow> quiet w w'"
proof -
  assume a: "add now e w = Inr w'"
  then obtain x where e: "e = Some x" by (cases e) (auto simp: add_def)
  let ?w2 = "w\<lparr>entities := entities w @ [x], bufferCount := bufferCount w + 1\<rparr>"
  have q2: "quiet w ?w2" by (simp add: quiet_def)
  have q3: "quiet ?w2 (fst (flush now ?w2))" by (rule quiet_flush)
  have q23: "quiet w (fst (flush now ?w2))" using q2 q3 by (rule quiet_trans)
  show ?thesis
  proof (cases "js_rem (bufferCount ?w2) (bufferSize ?w2) = Some 0")
    case False
    with a e have "w' = ?w2" by (simp add: add_def Let_def)
    with q2 show ?thesis by simp
  next
    case True
    obtain w3 r where f: "flush now ?w2 = (w3, r)" by (cases "flush now ?w2")
    with q23 have q: "quiet w w3" by simp
    show ?thesis
    proof (cases r)
      case (Awaiting rn)
      with a e True f have "w' = w3\<lparr>auto_flushes := auto_flushes w3 @ [rn]\<rparr>"
        by (simp add: add_def Let_def)
      with q show ?thesis by (simp add: quiet_def)
    next
      case Fulfilled
      with a e True f have "w' = catch_emit r w3" by (simp add: add_def Let_def)
      with q quiet_catch_emit [of w3 r] show ?thesis by (auto intro: quiet_trans)
    next
      case (Rejected err)
      with a e True f have "w' = catch_emit r w3" by (simp add: add_def Let_def)
      with q quiet_catch_emit [of w3 r] show ?thesis by (auto intro: quiet_trans)
    qed
  qed
qed

lemma quiet_rejected: "quiet w (fst (sink_rejected rn c w))"
  by (simp add: quiet_def sink_rejected_def flush_abort_def catch_emit_def emit_def)

text \<open>A completed request either is quiet or emits \<open>idle\<close> and resolves every waiter.\<close>

lemma resolved_cases:
  "quiet w (fst (sink_resolved rn now w)) \<or>
   (idle_listeners (fst (sink_resolved rn now w)) = [] \<and>
    ready_resolved (fst (sink_resolved rn now w)) = ready_resolved w @ idle_listeners w \<and>
    next_promise (fst (sink_resolved rn now w)) = next_promise w \<and>
    (\<exists>evs. emitted (fst (sink_resolved rn now w)) = emitted w @ evs \<and> Idle \<in> set evs))"
  by (simp add: quiet_def sink_resolved_def flush_resume_def endTimer_def Let_def
        changeStateToIdle_def emit_idle_def emit_def catch_emit_def)

lemma ready_step_quiet: "promises_inv w \<Longrightarrow> quiet w w' \<Longrightarrow> ready_step w w'"
  by (auto simp: ready_step_def quiet_def promises_inv_def)

lemma ready_step_ready: "promises_inv w \<Longrightarrow> ready_step w (snd (ready w))"
  by (auto simp: ready_step_def promises_inv_def ready_def Let_def list_all_iff
        intro: less_SucI)

lemma ready_step_resolved:
  "promises_inv w \<Longrightarrow> ready_step w (fst (sink_resolved rn now w))"
  using resolved_cases [of w rn now]
proof
  assume "promises_inv w" and "quiet w (fst (sink_resolved rn now w))"
  then show ?thesis by (rule ready_step_quiet)
next
  assume inv: "promises_inv w" and
    "idle_listeners (fst (sink_resolved rn now w)) = [] \<and>
     ready_resolved (fst (sink_resolved rn now w)) = ready_resolved w @ idle_listeners w \<and>
     next_promise (fst (sink_resolved rn now w)) = next_promise w \<and>
     (\<exists>evs. emitted (fst (sink_resolved rn now w)) = emitted w @ evs \<and> Idle \<in> set evs)"
  with inv show ?thesis
    by (auto simp: ready_step_def promises_inv_def list_all_iff)
qed

lemma ready_step_step: "promises_inv w \<Longrightarrow> ready_step w (step w a)"
proof (cases a)
  case (Add e now)
  assume inv: "promises_inv w"
  show ?thesis
  proof (cases "add now e w")
    case (Inl err)
    with Add inv show ?thesis by (simp add: ready_step_quiet quiet_refl)
  next
    case (Inr w')
    with Add inv quiet_add [OF Inr] show ?thesis by (simp add: ready_step_quiet)
  qed
next
  case (Flush now)
  assume "promises_inv w"
  with Flush show ?thesis by (simp add: ready_step_quiet quiet_flush)
next
  case Ready
  assume "promises_inv w"
  with Ready show ?thesis by (simp add: ready_step_ready)
next
  case (SinkResolve rn now)
  assume "promises_inv w"
  with SinkResolve show ?thesis
    by (simp add: ready_step_resolved ready_step_quiet quiet_refl)
next
  case (SinkReject rn c)
  assume "promises_inv w"
  with SinkReject show ?thesis
    by (simp add: ready_step_quiet quiet_rejected quiet_refl)
qed

lemma promises_inv_run: "promises_inv w \<Longrightarrow> promises_inv (run w as)"
proof (induction as arbitrary: w)
  case Nil
  then show ?case by simp
next
  case (Cons a as)
  from ready_step_step [OF Cons.prems, of a] have "promises_inv (step w a)"
    by (simp add: ready_step_def)
  then have "promises_inv (run (step w a) as)" by (rule Cons.IH)
  then show ?case by simp
qed

lemma resolved_run:
  "promises_inv w \<Longrightarrow> set (ready_resolved w) \<subseteq> set (ready_resolved (run w as))"
proof (induction as arbitrary: w)
  case Nil
  then show ?case by simp
next
  case (Cons a as)
  from ready_step_step [OF Cons.prems, of a]
  have i: "promises_inv (step w a)"
    and s: "set (ready_resolved w) \<subseteq> set (ready_resolved (step w a))"
    by (simp_all add: ready_step_def)
  from Cons.IH [OF i] s show ?case by auto
qed

lemma emitted_run: "promises_inv w \<Longrightarrow> \<exists>evs. emitted (run w as) = emitted w @ evs"
proof (induction as arbitrary: w)
  case Nil
  then show ?case by simp
next
  case (Cons a as)
  from ready_step_step [OF Cons.prems, of a]
  obtain evs where i: "promises_inv (step w a)" and e: "emitted (step w a) = emitted w @ evs"
    by (auto simp: ready_step_def)
  from Cons.IH [OF i] e show ?case by auto
qed

lemma waiter_resolved_iff_idle:
  "promises_inv w \<Longrightarrow> p \<in> set (idle_listeners w) \<Longrightarrow>
   p \<in> set (ready_resolved (run w as)) \<longleftrightarrow>
   Idle \<in> set (events_from (length (emitted w)) (run w as))"
proof (induction as arbitrary: w)
  case Nil
  then show ?case by (auto simp: promises_inv_def events_from_def list_all_iff)
next
  case (Cons a as)
  let ?w = "step w a"
  from ready_step_step [OF Cons.prems(1), of a]
  obtain evs where i: "promises_inv ?w" and e: "emitted ?w = emitted w @ evs"
    and c: "if Idle \<in> set evs then set (idle_listeners w) \<subseteq> set (ready_resolved ?w)
            else set (idle_listeners w) \<subseteq> set (idle_listeners ?w)"
    by (auto simp: ready_step_def)
  obtain more where m: "emitted (run ?w as) = emitted ?w @ more"
    using emitted_run [OF i, of as] by auto
  have ev: "events_from (length (emitted w)) (run ?w as) = evs @ more"
    using e m by (simp add: events_from_def)
  have ev': "events_from (length (emitted ?w)) (run ?w as) = more"
    using m by (simp add: events_from_def)
  show ?case
  proof (cases "Idle \<in> set evs")
    case True
    with c Cons.prems(2) have "p \<in> set (ready_resolved ?w)" by auto
    with resolved_run [OF i, of as] have "p \<in> set (ready_resolved (run ?w as))" by auto
    with True ev show ?thesis by simp
  next
    case False
    with c Cons.prems(2) have "p \<in> set (idle_listeners ?w)" by auto
    from Cons.IH [OF i this] ev ev' False show ?thesis by simp
  qed
qed

lemma promises_inv_init: "promises_inv (init_writer bs mc up)"
  by (simp add: promises_inv_def init_writer_def)

text \<open>
  C7. In every state the writer can reach, \<^verbatim>\<open>ready\<close> returns a promise of its own, one
  that no earlier call returned. When the writer is not busy the promise is resolved at
  once. When the writer is busy the promise waits, and then every waiting promise (this
  one and those of all other callers still waiting) is resolved after a sequence of
  actions exactly when an \<^verbatim>\<open>idle\<close> event was emitted during it: none before the next
  idle transition, all of them on it.
\<close>

theorem ready_resolves_on_idle:
  assumes "w = run (init_writer bs mc up) pre" and "ready w = (p, w')"
  shows
    "p \<notin> set (idle_listeners w) \<union> set (ready_resolved w) \<and>
     (if isBusy w then p \<in> set (idle_listeners w') \<and> p \<notin> set (ready_resolved w')
      else p \<in> set (ready_resolved w')) \<and>
     (\<forall>q \<in> set (idle_listeners w'). \<forall>as.
        q \<in> set (ready_resolved (run w' as)) \<longleftrightarrow>
        Idle \<in> set (events_from (length (emitted w')) (run w' as)))"
proof -
  have inv: "promises_inv w"
    unfolding assms(1) using promises_inv_init by (rule promises_inv_run)
  have inv': "promises_inv w'"
    using ready_step_ready [OF inv] assms(2) by (simp add: ready_step_def)
  have p: "p = next_promise w" using assms(2) by (auto simp: ready_def Let_def split: if_splits)
  have fresh: "p \<notin> set (idle_listeners w) \<union> set (ready_resolved w)"
    using inv p by (auto simp: promises_inv_def list_all_iff)
  have now: "if isBusy w then p \<in> set (idle_listeners w') \<and> p \<notin> set (ready_resolved w')
             else p \<in> set (ready_resolved w')"
    using assms(2) fresh by (auto simp: ready_def Let_def split: if_splits)
  from fresh now waiter_resolved_iff_idle [OF inv'] show ?thesis by blast
qed

theorem ready_resolves_on_idle_witness:
  "ready (run (init_writer 1 1 False :: (nat, string) writer) [Add (Some 1) 0]) =
     (0, snd (ready (run (init_writer 1 1 False) [Add (Some 1) 0]))) \<and>
   isBusy (run (init_writer 1 1 False :: (nat, string) writer) [Add (Some 1) 0]) \<and>
   idle_listeners (snd (ready (run (init_writer 1 1 False :: (nat, string) writer)
      [Add (Some 1) 0]))) = [0] \<and>
   ready_resolved (run (snd (ready (run (init_writer 1 1 False :: (nat, string) writer)
      [Add (Some 1) 0]))) [Ready]) = [] \<and>
   idle_listeners (run (snd (ready (run (init_writer 1 1 False :: (nat, string) writer)
      [Add (Some 1) 0]))) [Ready]) = [0, 1] \<and>
   ready_resolved (run (snd (ready (run (init_writer 1 1 False :: (nat, string) writer)
      [Add (Some 1) 0]))) [Ready, SinkResolve 1 5]) = [0, 1] \<and>
   events_from 1 (run (snd (ready (run (init_writer 1 1 False :: (nat, string) writer)
      [Add (Some 1) 0]))) [Ready, SinkResolve 1 5]) =
     [Stats \<lparr>st_start = 0, st_end = 5, st_request_count = 1, st_elapsed = 5\<rparr>, Idle]"
  using ready_resolves_on_idle
          [of "run (init_writer 1 1 False :: (nat, string) writer) [Add (Some 1) 0]"
              1 1 False "[Add (Some 1) 0]" 0
              "snd (ready (run (init_writer 1 1 False :: (nat, string) writer) [Add (Some 1) 0]))"]
  by (simp add: writer_defs events_from_def)

section \<open>Properties of the loader\<close>

lemma cursor_eq_refl: "cursor_eq l l"
  by (simp add: cursor_eq_def)

lemma cursor_eq_trans: "cursor_eq l l1 \<Longrightarrow> cursor_eq l1 l2 \<Longrightarrow> cursor_eq l l2"
  by (simp add: cursor_eq_def)

lemma cursor_handleErrorEvent: "cursor_eq l (handleErrorEvent err l)"
  by (simp add: cursor_eq_def handleErrorEvent_def)

lemma cursor_on_event: "cursor_eq l (on_event l ev)"
  by (cases ev) (simp_all add: cursor_eq_def handleErrorEvent_def)

lemma cursor_foldl_on_event: "cursor_eq l (foldl on_event l evs)"
proof (induction evs arbitrary: l)
  case Nil
  show ?case by (simp add: cursor_eq_refl)
next
  case (Cons ev evs)
  have "cursor_eq l (on_event l ev)" by (rule cursor_on_event)
  moreover have "cursor_eq (on_event l ev) (foldl on_event (on_event l ev) evs)" by (rule Cons.IH)
  ultimately have "cursor_eq l (foldl on_event (on_event l ev) evs)" by (rule cursor_eq_trans)
  then show ?case by simp
qed

lemma cursor_set_writer: "cursor_eq l (set_writer w l)"
proof -
  have "cursor_eq l (l\<lparr>ld_writer := w\<rparr>)" by (simp add: cursor_eq_def)
  then show ?thesis
    unfolding set_writer_def using cursor_foldl_on_event by (rule cursor_eq_trans)
qed

lemma cursor_complete: "cursor_eq l (complete l)"
  by (simp add: cursor_eq_def complete_def Let_def)

lemma cursor_after_final_flush: "cursor_eq l (after_final_flush r l)"
  by (cases r) (simp_all add: after_final_flush_def cursor_complete cursor_handleErrorEvent,
      simp add: cursor_eq_def)

lemma cursor_settled_final: "cursor_eq l (settled_final rn r l)"
proof (cases "final_flush l = Some rn")
  case True
  have "cursor_eq l (l\<lparr>final_flush := None\<rparr>)" by (simp add: cursor_eq_def)
  with True show ?thesis
    using cursor_after_final_flush by (auto simp: settled_final_def intro: cursor_eq_trans)
next
  case False
  then show ?thesis by (simp add: settled_final_def cursor_eq_refl)
qed

lemma cursor_waitForWriter: "cursor_eq l (waitForWriter entity l)"
  by (simp add: cursor_eq_def waitForWriter_def split: prod.splits)

lemma cursor_resume_line: "cursor_eq l (resume_line now entity l)"
proof -
  have "cursor_eq l ((set_writer w l)\<lparr>lr_paused := False, ld_isPaused := False\<rparr>)" for w
    using cursor_set_writer [of l w] by (simp add: cursor_eq_def)
  then show ?thesis
    by (simp add: resume_line_def cursor_handleErrorEvent split: sum.splits)
qed

lemma cursor_foldl_resume:
  "cursor_eq l (foldl (\<lambda>l2 (p, entity). resume_line now entity l2) l ws)"
proof (induction ws arbitrary: l)
  case Nil
  show ?case by (simp add: cursor_eq_refl)
next
  case (Cons a ws)
  obtain p entity where a: "a = (p, entity)" by (cases a)
  have "cursor_eq l (resume_line now entity l)" by (rule cursor_resume_line)
  moreover have "cursor_eq (resume_line now entity l)
      (foldl (\<lambda>l2 (p, entity). resume_line now entity l2) (resume_line now entity l) ws)"
    by (rule Cons.IH)
  ultimately show ?case using a by (auto intro: cursor_eq_trans)
qed

lemma cursor_resume_waiters: "cursor_eq l (resume_waiters now l)"
proof -
  have "cursor_eq l (l\<lparr>waiting := ws\<rparr>)" for ws by (simp add: cursor_eq_def)
  then show ?thesis
    unfolding resume_waiters_def Let_def using cursor_foldl_resume by (rule cursor_eq_trans)
qed

lemma cursor_handleEndEvent: "cursor_eq l (handleEndEvent now l)"
proof -
  have "cursor_eq l (after_final_flush r (set_writer w l))" for w r
    using cursor_set_writer [of l w] cursor_after_final_flush [of "set_writer w l" r]
    by (rule cursor_eq_trans)
  then show ?thesis by (simp add: handleEndEvent_def split: prod.splits)
qed

lemma count_inv_cursor: "count_inv n l \<Longrightarrow> cursor_eq l l' \<Longrightarrow> count_inv n l'"
  by (simp add: count_inv_def cursor_eq_def)

lemma count_inv_handleLineEvent:
  assumes "0 < n" and "count_inv n l"
  shows "count_inv n (handleLineEvent conv now line l)"
proof (cases "limit_reached l")
  case True
  with assms show ?thesis by (simp add: handleLineEvent_def count_inv_def)
next
  case False
  let ?l1 = "l\<lparr>ld_count := ld_count l + 1, converted := converted l @ [line]\<rparr>"
  have lt: "ld_count l < n" using False assms by (auto simp: limit_reached_def count_inv_def)
  have inv1: "count_inv n ?l1" using assms lt by (simp add: count_inv_def)
  have "cursor_eq ?l1 (handleLineEvent conv now line l)"
  proof (cases "conv line")
    case (Inl err)
    with False show ?thesis by (simp add: handleLineEvent_def Let_def cursor_handleErrorEvent)
  next
    case (Inr entity)
    show ?thesis
    proof (cases "isBusy (ld_writer l)")
      case True
      have "cursor_eq ?l1 (?l1\<lparr>lr_paused := True, ld_isPaused := True\<rparr>)"
        by (simp add: cursor_eq_def)
      then have "cursor_eq ?l1 (waitForWriter entity (?l1\<lparr>lr_paused := True, ld_isPaused := True\<rparr>))"
        using cursor_waitForWriter by (rule cursor_eq_trans)
      with False Inr True show ?thesis by (simp add: handleLineEvent_def Let_def)
    next
      case busy: False
      show ?thesis
      proof (cases "add now entity (ld_writer l)")
        case (Inl err)
        with False Inr busy show ?thesis
          by (simp add: handleLineEvent_def Let_def cursor_handleErrorEvent)
      next
        case (Inr w)
        with False \<open>conv line = Inr entity\<close> busy show ?thesis
          by (simp add: handleLineEvent_def Let_def cursor_set_writer)
      qed
    qed
  qed
  with inv1 show ?thesis by (rule count_inv_cursor)
qed

lemma count_inv_lstep:
  assumes "0 < n" and "count_inv n l"
  shows "count_inv n (lstep conv l a)"
proof (cases a)
  case (LineEv line now)
  show ?thesis
  proof (cases "lr_paused l \<or> lr_closed l \<or> lr_ended l")
    case True
    with LineEv assms show ?thesis by simp
  next
    case False
    have "count_inv n (handleLineEvent conv now line l)"
      using assms by (rule count_inv_handleLineEvent)
    then have "count_inv n (resume_waiters now (handleLineEvent conv now line l))"
      using cursor_resume_waiters by (rule count_inv_cursor)
    with LineEv False show ?thesis by simp
  qed
next
  case (EndEv now)
  have "cursor_eq l (l\<lparr>lr_ended := True\<rparr>)" by (simp add: cursor_eq_def)
  then have "cursor_eq l (handleEndEvent now (l\<lparr>lr_ended := True\<rparr>))"
    using cursor_handleEndEvent by (rule cursor_eq_trans)
  with assms(2) have "count_inv n (handleEndEvent now (l\<lparr>lr_ended := True\<rparr>))"
    by (rule count_inv_cursor)
  with EndEv assms show ?thesis by simp
next
  case (ErrorEv msg)
  with assms cursor_handleErrorEvent show ?thesis by (auto intro: count_inv_cursor)
next
  case (LSinkResolve rn now)
  have "cursor_eq l (resume_waiters now (settled_final rn r (set_writer w l)))" for w r
    using cursor_set_writer [of l w] cursor_settled_final cursor_resume_waiters
    by (blast intro: cursor_eq_trans)
  with LSinkResolve assms show ?thesis
    by (auto split: prod.splits intro: count_inv_cursor)
next
  case (LSinkReject rn c)
  have "cursor_eq l (settled_final rn r (set_writer w l))" for w r
    using cursor_set_writer [of l w] cursor_settled_final
    by (blast intro: cursor_eq_trans)
  with LSinkReject assms show ?thesis
    by (auto split: prod.splits intro: count_inv_cursor)
qed

lemma count_inv_lrun: "0 < n \<Longrightarrow> count_inv n l \<Longrightarrow> count_inv n (lrun conv l as)"
  by (induction as arbitrary: l) (simp_all add: count_inv_lstep)

lemma foldl_on_event_quiet:
  "\<forall>ev \<in> set evs. ev = Busy \<or> ev = Idle \<Longrightarrow> foldl on_event l evs = l"
  by (induction evs arbitrary: l) auto

lemma resume_waiters_none: "waiting l = [] \<Longrightarrow> resume_waiters now l = l"
  by (simp add: resume_waiters_def)

lemma js_rem_below:
  "0 < a \<Longrightarrow> a < b \<Longrightarrow> js_rem a b \<noteq> Some 0"
  by (simp add: js_rem_def)

lemma add_below_threshold:
  assumes "0 \<le> bufferCount w" and "bufferCount w + 1 < bufferSize w"
  shows "add now (Some e) w =
         Inr (w\<lparr>entities := entities w @ [e], bufferCount := bufferCount w + 1\<rparr>)"
  using assms js_rem_below [of "bufferCount w + 1" "bufferSize w"]
  by (simp add: add_def Let_def)

lemma feed_line:
  assumes "ld_nLines l = Some n" and "0 < n"
    and "\<not> lr_paused l" and "\<not> lr_closed l" and "\<not> lr_ended l"
    and "\<not> isBusy (ld_writer l)" and "waiting l = []"
    and "0 \<le> bufferCount (ld_writer l)"
    and "ld_count l < n"
    and "bufferCount (ld_writer l) + 1 < bufferSize (ld_writer l)"
    and "conv x = Inr (Some e)"
  shows "lstep conv l (LineEv x t) =
         l\<lparr>ld_count := ld_count l + 1, converted := converted l @ [x],
           ld_writer := (ld_writer l)\<lparr>entities := entities (ld_writer l) @ [e],
                                     bufferCount := bufferCount (ld_writer l) + 1\<rparr>\<rparr>"
proof -
  have nl: "\<not> limit_reached l" using assms by (simp add: limit_reached_def)
  have a: "add t (Some e) (ld_writer l) =
           Inr ((ld_writer l)\<lparr>entities := entities (ld_writer l) @ [e],
                                 bufferCount := bufferCount (ld_writer l) + 1\<rparr>)"
    using assms by (intro add_below_threshold) simp_all
  have h: "handleLineEvent conv t x l =
         l\<lparr>ld_count := ld_count l + 1, converted := converted l @ [x],
           ld_writer := (ld_writer l)\<lparr>entities := entities (ld_writer l) @ [e],
                                     bufferCount := bufferCount (ld_writer l) + 1\<rparr>\<rparr>"
    using nl assms a by (simp add: handleLineEvent_def Let_def set_writer_def)
  show ?thesis using assms h by (simp add: resume_waiters_none)
qed

lemma feed_lines:
  assumes "ld_nLines l = Some n" and "0 < n"
    and "\<not> lr_paused l" and "\<not> lr_closed l" and "\<not> lr_ended l"
    and "\<not> isBusy (ld_writer l)" and "waiting l = []"
    and "0 \<le> bufferCount (ld_writer l)"
    and "ld_count l + int (length lts) \<le> n"
    and "bufferCount (ld_writer l) + int (length lts) < bufferSize (ld_writer l)"
    and "map (\<lambda>(x, t). conv x) lts = map (\<lambda>e. Inr (Some e)) es"
  shows "lrun conv l (line_events lts) =
         l\<lparr>ld_count := ld_count l + int (length lts),
           converted := converted l @ map fst lts,
           ld_writer := (ld_writer l)\<lparr>entities := entities (ld_writer l) @ es,
             bufferCount := bufferCount (ld_writer l) + int (length lts)\<rparr>\<rparr>"
  using assms
proof (induction lts arbitrary: l es)
  case Nil
  then show ?case by (simp add: line_events_def)
next
  case (Cons a lts)
  obtain x t where a: "a = (x, t)" by (cases a)
  from Cons.prems(11) a obtain e es' where es: "es = e # es'" and e: "conv x = Inr (Some e)"
    and rest: "map (\<lambda>(x, t). conv x) lts = map (\<lambda>e. Inr (Some e)) es'"
    by (cases es) auto
  let ?l1 = "l\<lparr>ld_count := ld_count l + 1, converted := converted l @ [x],
           ld_writer := (ld_writer l)\<lparr>entities := entities (ld_writer l) @ [e],
                                     bufferCount := bufferCount (ld_writer l) + 1\<rparr>\<rparr>"
  have step: "lstep conv l (LineEv x t) = ?l1"
    using Cons.prems e by (intro feed_line [where n = n]) simp_all
  have "lrun conv ?l1 (line_events lts) =
         ?l1\<lparr>ld_count := ld_count ?l1 + int (length lts),
           converted := converted ?l1 @ map fst lts,
           ld_writer := (ld_writer ?l1)\<lparr>entities := entities (ld_writer ?l1) @ es',
             bufferCount := bufferCount (ld_writer ?l1) + int (length lts)\<rparr>\<rparr>"
    using Cons.prems rest by (intro Cons.IH [where es = es']) simp_all
  with step a es show ?case by (simp add: line_events_def add.assoc add.commute)
qed

lemma closed_ignores_lines: "lr_closed l \<Longrightarrow> lrun conv l (line_events lts) = l"
  by (induction lts) (auto simp: line_events_def)

lemma line_events_append: "line_events (xs @ ys) = line_events xs @ line_events ys"
  by (simp add: line_events_def)

lemma lrun_append: "lrun conv l (as @ bs) = lrun conv (lrun conv l as) bs"
  by (induction as arbitrary: l) simp_all

text \<open>The lines after the limit: the first closes the reader, the rest never arrive.\<close>

lemma lines_after_limit:
  assumes "limit_reached l" and "\<not> lr_paused l" and "\<not> lr_ended l" and "waiting l = []"
  shows "lrun conv l (line_events lts) = (if lts = [] then l else l\<lparr>lr_closed := True\<rparr>)"
proof (cases lts)
  case Nil
  then show ?thesis by (simp add: line_events_def)
next
  case (Cons a rest)
  obtain x t where a: "a = (x, t)" by (cases a)
  have first: "lstep conv l (LineEv x t) = l\<lparr>lr_closed := True\<rparr>"
    using assms by (cases "lr_closed l") (simp_all add: handleLineEvent_def resume_waiters_none)
  have "lrun conv (l\<lparr>lr_closed := True\<rparr>) (line_events rest) = l\<lparr>lr_closed := True\<rparr>"
    by (rule closed_ignores_lines) simp
  with first Cons a show ?thesis by (simp add: line_events_def)
qed

text \<open>The final flush on a writer with no request under way.\<close>

lemma flush_idle_writer:
  assumes "entities w \<noteq> []" and "concurrentRequests w = 0" and "0 < maxConcurrentRequests w"
    and "\<not> isTicking w" and "\<not> isBusy w"
  shows "\<exists>w'. flush now w = (w', Awaiting (requestCount w + 1)) \<and>
           sink_calls w' = sink_calls w @
             [(if upsert w then Upsert else Insert, requestCount w + 1, entities w)] \<and>
           entities w' = [] \<and>
           (\<forall>ev \<in> set (drop (length (emitted w)) (emitted w')). ev = Busy \<or> ev = Idle)"
  using assms
  by (simp add: flush_def Let_def changeStateToBusy_def startTimer_def emit_def)

lemma end_flushes_buffer:
  assumes "entities (ld_writer l) \<noteq> []" and "concurrentRequests (ld_writer l) = 0"
    and "0 < maxConcurrentRequests (ld_writer l)"
    and "\<not> isTicking (ld_writer l)" and "\<not> isBusy (ld_writer l)" and "\<not> lr_ended l"
  shows "\<exists>w'. lstep conv l (EndEv now) =
           l\<lparr>lr_ended := True, ld_writer := w',
             final_flush := Some (requestCount (ld_writer l) + 1)\<rparr> \<and>
           sink_calls w' = sink_calls (ld_writer l) @
             [(if upsert (ld_writer l) then Upsert else Insert,
               requestCount (ld_writer l) + 1, entities (ld_writer l))] \<and>
           entities w' = []"
proof -
  from flush_idle_writer [OF assms(1-5), of now] obtain w' where
    f: "flush now (ld_writer l) = (w', Awaiting (requestCount (ld_writer l) + 1))" and
    s: "sink_calls w' = sink_calls (ld_writer l) @
             [(if upsert (ld_writer l) then Upsert else Insert,
               requestCount (ld_writer l) + 1, entities (ld_writer l))]" and
    e: "entities w' = []" and
    q: "\<forall>ev \<in> set (drop (length (emitted (ld_writer l))) (emitted w')). ev = Busy \<or> ev = Idle"
    by blast
  have "set_writer w' (l\<lparr>lr_ended := True\<rparr>) = l\<lparr>lr_ended := True, ld_writer := w'\<rparr>"
    using q by (simp add: set_writer_def foldl_on_event_quiet)
  with f assms(6) have "lstep conv l (EndEv now) =
           l\<lparr>lr_ended := True, ld_writer := w',
             final_flush := Some (requestCount (ld_writer l) + 1)\<rparr>"
    by (simp add: handleEndEvent_def after_final_flush_def)
  with s e show ?thesis by blast
qed

lemma load_init_loader: "load (init_loader w bs nc nl) = init_loader w bs nc nl"
  by (simp add: load_def init_loader_def)

lemma ld_writer_foldl_on_event: "ld_writer (foldl on_event l evs) = ld_writer l"
proof (induction evs arbitrary: l)
  case Nil
  show ?case by simp
next
  case (Cons ev evs)
  have "ld_writer (on_event l ev) = ld_writer l"
    by (cases ev) (simp_all add: handleErrorEvent_def)
  with Cons.IH [of "on_event l ev"] show ?case by simp
qed

lemma ld_writer_handleEndEvent:
  "ld_writer (handleEndEvent now l) = fst (flush now (ld_writer l))"
proof -
  have "ld_writer (after_final_flush r (set_writer w l)) = w" for w r
    by (cases r)
       (simp_all add: after_final_flush_def set_writer_def ld_writer_foldl_on_event
          complete_def handleErrorEvent_def Let_def)
  then show ?thesis by (simp add: handleEndEvent_def split: prod.splits)
qed

lemma end_takes_buffer:
  "\<not> lr_ended l \<Longrightarrow> entities (ld_writer (lstep conv l (EndEv now))) = []"
  by (simp add: ld_writer_handleEndEvent entities_flush)

text \<open>
  The handlers on a loader whose fields are as \<open>init_loader\<close> gives them, that is, as the
  constructor would leave them if \<^verbatim>\<open>Writer\<close> were the class. An \<^verbatim>\<open>end\<close> event with nothing
  read makes the final flush a no-op, \<^verbatim>\<open>#complete\<close> divides 0 by 0, which is \<^verbatim>\<open>NaN\<close> and
  throws nothing, and \<^verbatim>\<open>resolve\<close> is called.
\<close>

lemma end_on_fresh_loader:
  assumes "l = init_loader (init_writer bs nc up) bs nc nl"
  shows "settle_calls (lrun conv (load l) [EndEv now]) = [Resolve] \<and>
         logged (lrun conv (load l) [EndEv now]) = [NaN] \<and>
         ld_writer (lrun conv (load l) [EndEv now]) = ld_writer l"
  unfolding assms load_init_loader
  by (simp add: init_loader_def init_writer_def handleEndEvent_def flush_def set_writer_def
        after_final_flush_def complete_def js_div_def)

text \<open>
  On such a loader with a record limit \<open>n > 0\<close>: never more than \<open>n\<close> lines reach the
  converter, whatever the reader and the sink do; the \<^verbatim>\<open>line\<close> event that arrives when
  the count has reached \<open>n\<close> is not consumed and closes the reader; when \<open>n\<close> is below the
  buffer size and the converter succeeds, the flush at the end submits the first \<open>n\<close>
  entities as the only batch; and an \<^verbatim>\<open>end\<close> event makes \<^verbatim>\<open>flush\<close> take what is left in the
  buffer, which reaches the sink when no request is under way.
\<close>

lemma record_limit_on_fresh_loader:
  fixes l :: "('e, 'c) loader"
  assumes "l = init_loader (init_writer bs nc up) bs nc (Some n)" and "0 < nc" and "0 < n"
  shows
   "(\<forall>as. int (length (converted (lrun conv (load l) as))) \<le> n) \<and>
    (\<forall>l' now line. limit_reached l' \<longrightarrow>
        handleLineEvent conv now line l' = l'\<lparr>lr_closed := True\<rparr>) \<and>
    (\<forall>lts es now.
        n < ld_batch l \<and> n \<le> int (length lts) \<and>
        map (\<lambda>(x, t). conv x) lts = map (\<lambda>e. Inr (Some e)) es \<longrightarrow>
        converted (lrun conv (load l) (line_events lts @ [EndEv now])) =
          map fst (take (nat n) lts) \<and>
        lr_closed (lrun conv (load l) (line_events lts @ [EndEv now])) =
          (n < int (length lts)) \<and>
        batches_from 0 (ld_writer (lrun conv (load l) (line_events lts @ [EndEv now]))) =
          [take (nat n) es] \<and>
        length (take (nat n) es) = nat n \<and>
        entities (ld_writer (lrun conv (load l) (line_events lts @ [EndEv now]))) = []) \<and>
    (\<forall>l' now. \<not> lr_ended l' \<longrightarrow>
        entities (ld_writer (lstep conv l' (EndEv now))) = [] \<and>
        (entities (ld_writer l') \<noteq> [] \<and> concurrentRequests (ld_writer l') = 0 \<and>
         0 < maxConcurrentRequests (ld_writer l') \<and> \<not> isTicking (ld_writer l') \<and>
         \<not> isBusy (ld_writer l') \<longrightarrow>
           batches_from (length (sink_calls (ld_writer l')))
             (ld_writer (lstep conv l' (EndEv now))) = [entities (ld_writer l')]))"
proof -
  note l = assms(1) and nc = assms(2)
  let ?l0 = "init_loader (init_writer bs nc up) bs nc (Some n) :: ('e, 'c) loader"
  have l0: "load l = ?l0" unfolding l by (rule load_init_loader)
  have inv0: "count_inv n ?l0" using assms(3) by (simp add: count_inv_def init_loader_def)
  have a: "int (length (converted (lrun conv (load l) as))) \<le> n" for as
    using count_inv_lrun [OF assms(3) inv0, of conv as] l0 by (simp add: count_inv_def)
  have b: "limit_reached l' \<longrightarrow> handleLineEvent conv now line l' = l'\<lparr>lr_closed := True\<rparr>"
    for l' :: "('e, 'c) loader" and now line
    by (simp add: handleLineEvent_def)
  have c: "converted (lrun conv (load l) (line_events lts @ [EndEv now])) =
          map fst (take (nat n) lts) \<and>
        lr_closed (lrun conv (load l) (line_events lts @ [EndEv now])) =
          (n < int (length lts)) \<and>
        batches_from 0 (ld_writer (lrun conv (load l) (line_events lts @ [EndEv now]))) =
          [take (nat n) es] \<and>
        length (take (nat n) es) = nat n \<and>
        entities (ld_writer (lrun conv (load l) (line_events lts @ [EndEv now]))) = []"
    if small: "n < ld_batch l" and enough: "n \<le> int (length lts)"
      and conv: "map (\<lambda>(x, t). conv x) lts = map (\<lambda>e. Inr (Some e)) es"
    for lts es now
  proof -
    let ?k = "nat n"
    let ?first = "take ?k lts" and ?rest = "drop ?k lts"
    have len: "length es = length lts" using conv by (metis length_map)
    have lk: "int (length ?first) = n" using enough assms(3) by simp
    have conv1: "map (\<lambda>(x, t). conv x) ?first = map (\<lambda>e. Inr (Some e)) (take ?k es)"
      using conv by (simp add: take_map [symmetric])
    have nbs: "n < bs" using small by (simp add: l init_loader_def)
    let ?l1 = "?l0\<lparr>ld_count := ld_count ?l0 + int (length ?first),
           converted := converted ?l0 @ map fst ?first,
           ld_writer := (ld_writer ?l0)\<lparr>entities := entities (ld_writer ?l0) @ take ?k es,
             bufferCount := bufferCount (ld_writer ?l0) + int (length ?first)\<rparr>\<rparr>"
    have s1: "lrun conv ?l0 (line_events ?first) = ?l1"
      using assms(3) lk nbs conv1
      by (intro feed_lines [where n = n]) (simp_all add: init_loader_def init_writer_def)
    have lim: "limit_reached ?l1"
      using assms(3) lk by (simp add: limit_reached_def init_loader_def)
    let ?l2 = "if ?rest = [] then ?l1 else ?l1\<lparr>lr_closed := True\<rparr>"
    have s2: "lrun conv ?l1 (line_events ?rest) = ?l2"
      using lim by (intro lines_after_limit) (simp_all add: init_loader_def)
    have ne: "take ?k es \<noteq> []" using len enough assms(3) by auto
    have pre: "entities (ld_writer ?l2) \<noteq> []" "concurrentRequests (ld_writer ?l2) = 0"
      "0 < maxConcurrentRequests (ld_writer ?l2)" "\<not> isTicking (ld_writer ?l2)"
      "\<not> isBusy (ld_writer ?l2)" "\<not> lr_ended ?l2"
      using ne nc by (simp_all add: init_loader_def init_writer_def)
    from end_flushes_buffer [OF pre, of conv now] obtain w' where
      s3: "lstep conv ?l2 (EndEv now) =
             ?l2\<lparr>lr_ended := True, ld_writer := w',
               final_flush := Some (requestCount (ld_writer ?l2) + 1)\<rparr>" and
      sc: "sink_calls w' = sink_calls (ld_writer ?l2) @
             [(if upsert (ld_writer ?l2) then Upsert else Insert,
               requestCount (ld_writer ?l2) + 1, entities (ld_writer ?l2))]" and
      en: "entities w' = []"
      by blast
    have split: "line_events lts @ [EndEv now] =
                 line_events ?first @ line_events ?rest @ [EndEv now]"
      by (simp add: line_events_append [symmetric])
    let ?l3 = "?l2\<lparr>lr_ended := True, ld_writer := w',
               final_flush := Some (requestCount (ld_writer ?l2) + 1)\<rparr>"
    have final: "lrun conv (load l) (line_events lts @ [EndEv now]) = ?l3"
      unfolding l0 split lrun_append s1 s2 using s3 by simp
    have r1: "converted ?l3 = map fst (take ?k lts)" by (simp add: init_loader_def)
    have r2: "lr_closed ?l3 = (n < int (length lts))"
      using assms(3) by (auto simp: init_loader_def)
    have "sink_calls w' = [(if up then Upsert else Insert, 1, take ?k es)]"
      using sc by (simp add: init_loader_def init_writer_def)
    then have r3: "batches_from 0 (ld_writer ?l3) = [take ?k es]"
      by (simp add: batches_from_def)
    have r4: "length (take ?k es) = ?k" using len enough by simp
    have r5: "entities (ld_writer ?l3) = []" using en by simp
    show ?thesis unfolding final by (intro conjI r1 r2 r3 r4 r5)
  qed
  have d: "entities (ld_writer (lstep conv l' (EndEv now))) = [] \<and>
        (entities (ld_writer l') \<noteq> [] \<and> concurrentRequests (ld_writer l') = 0 \<and>
         0 < maxConcurrentRequests (ld_writer l') \<and> \<not> isTicking (ld_writer l') \<and>
         \<not> isBusy (ld_writer l') \<longrightarrow>
           batches_from (length (sink_calls (ld_writer l')))
             (ld_writer (lstep conv l' (EndEv now))) = [entities (ld_writer l')])"
    if ne: "\<not> lr_ended l'" for l' :: "('e, 'c) loader" and now
  proof -
    have "batches_from (length (sink_calls (ld_writer l')))
             (ld_writer (lstep conv l' (EndEv now))) = [entities (ld_writer l')]"
      if pre: "entities (ld_writer l') \<noteq> []" "concurrentRequests (ld_writer l') = 0"
        "0 < maxConcurrentRequests (ld_writer l')" "\<not> isTicking (ld_writer l')"
        "\<not> isBusy (ld_writer l')"
    proof -
      from end_flushes_buffer [OF pre ne, of conv now] obtain w' where
        "lstep conv l' (EndEv now) =
           l'\<lparr>lr_ended := True, ld_writer := w',
             final_flush := Some (requestCount (ld_writer l') + 1)\<rparr>" and
        "sink_calls w' = sink_calls (ld_writer l') @
             [(if upsert (ld_writer l') then Upsert else Insert,
               requestCount (ld_writer l') + 1, entities (ld_writer l'))]"
        by blast
      then show ?thesis by (simp add: batches_from_def)
    qed
    with end_takes_buffer [OF ne, of conv now] show ?thesis by blast
  qed
  from a b c d show ?thesis by blast
qed


lemmas loader_defs =
  init_loader_def load_def handleLineEvent_def handleEndEvent_def handleErrorEvent_def
  limit_reached_def set_writer_def after_final_flush_def complete_def resume_waiters_def
  waitForWriter_def resume_line_def settled_final_def js_div_def

text \<open>
  C10, evaluated on the default configuration. The constructor never returns a loader:
  every argument list fails a check or ends in the \<^verbatim>\<open>TypeError\<close> of \<^verbatim>\<open>new Writer(...)\<close>.
  So \<^verbatim>\<open>new BulkLoader('empty.csv', datastore, converter)\<close> throws, \<^verbatim>\<open>load\<close> is never
  called, and no completion signal exists that could resolve.
\<close>

theorem loader_is_never_constructed:
  "new_loader (Some ''empty.csv'') (Some ()) (Some ()) None =
     (Inl TypeError :: string error + (nat, string) loader) \<and>
   (\<forall>fp (ds :: unit option) (cv :: unit option) opts.
      isl (new_loader fp ds cv opts :: string error + (nat, string) loader))"
  by (simp add: new_loader_def or_default_def default_options_def Let_def)

text \<open>
  C8, evaluated. With a record limit of 250 and a batch size of 500 the constructor
  throws the \<^verbatim>\<open>TypeError\<close> of \<^verbatim>\<open>new Writer(...)\<close>, so nothing is consumed and nothing is
  flushed. The second part runs the handlers on the fields the constructor would assign
  for limit 3 and batch size 2, on four lines with no sink completion in between: three
  lines are converted and the fourth closes the reader, but the flush at the \<^verbatim>\<open>end\<close>
  event starts while request 1 is in flight and fails the assertion of \<^verbatim>\<open>#startTimer\<close>;
  \<^verbatim>\<open>reject\<close> is called, the sink has received the batch of the first two lines only, and
  the third record is in neither the buffer nor any batch.
\<close>

theorem record_limit_run_fails:
  "new_loader (Some ''data.csv'') (Some ()) (Some ())
     (Some \<lparr>num_concurrent = Some 10, num_lines = Some 250, batch_size = Some 500,
            lo_upsert = Some False\<rparr>) =
     (Inl TypeError :: string error + (string, string) loader) \<and>
   (let l = lrun (\<lambda>line. Inr (Some line))
              (load (init_loader (init_writer 2 10 False) 2 10 (Some 3)
                 :: (string, string) loader))
              [LineEv ''a'' 0, LineEv ''b'' 1, LineEv ''c'' 2, LineEv ''d'' 3, EndEv 4]
    in converted l = [''a'', ''b'', ''c''] \<and> lr_closed l \<and>
       batches_from 0 (ld_writer l) = [[''a'', ''b'']] \<and>
       entities (ld_writer l) = [] \<and>
       settle_calls l = [Reject AssertionError])"
  by (simp add: new_loader_def or_default_def Let_def loader_defs writer_defs batches_from_def)

end
